theory Spec2Isabelle
  imports Main "HOL-Library.Word" "HOL-Library.Code_Target_Nat"
begin

unbundle bit_operations_syntax

section \<open>Machine types and constants\<close>

type_synonym u8 = "8 word"
type_synonym u16 = "16 word"
type_synonym u32 = "32 word"

subsection \<open>TCP sequence comparison (tcp.c)\<close>

text \<open>
  \<^verbatim>\<open>#define MAX_WS 8\<close>, \<^verbatim>\<open>#define MAX_WINDOW (1 << (16 + (MAX_WS)))\<close>.
  The comparison macros take \<^verbatim>\<open>uint32_t\<close> operands, so the subtraction wraps
  modulo \<open>2 ^ 32\<close> and the comparison with \<^verbatim>\<open>MAX_WINDOW\<close> is unsigned.
\<close>

definition MAX_WS :: nat where
  "MAX_WS = 8"

definition MAX_WINDOW :: u32 where
  "MAX_WINDOW = push_bit (16 + MAX_WS) 1"

definition SEQ_LE :: "u32 \<Rightarrow> u32 \<Rightarrow> bool" where
  "SEQ_LE a b = (b - a < MAX_WINDOW)"

definition SEQ_LT :: "u32 \<Rightarrow> u32 \<Rightarrow> bool" where
  "SEQ_LT a b = (b - a - 1 < MAX_WINDOW)"

definition SEQ_GE :: "u32 \<Rightarrow> u32 \<Rightarrow> bool" where
  "SEQ_GE a b = (a - b < MAX_WINDOW)"

definition SEQ_GT :: "u32 \<Rightarrow> u32 \<Rightarrow> bool" where
  "SEQ_GT a b = (a - b - 1 < MAX_WINDOW)"

subsection \<open>Connection events, flags and epoll masks (tcp.c)\<close>

text \<open>
  The event and flag bits are declared in a header that is not part of the sources at
  hand. Their positions are the ones tcp.c itself relies on: \<^verbatim>\<open>tcp_event_str[]\<close> and
  \<^verbatim>\<open>tcp_flag_str[]\<close> are indexed by \<^verbatim>\<open>fls()\<close> of the bit, with the index shifted by
  one for the events that accompany \<^verbatim>\<open>ESTABLISHED\<close> (see \<^verbatim>\<open>conn_event_do()\<close>), and
  "no events" is \<^verbatim>\<open>CLOSED\<close>.
\<close>

definition CLOSED :: u8 where "CLOSED = 0"
definition SOCK_ACCEPTED :: u8 where "SOCK_ACCEPTED = 1"
definition TAP_SYN_RCVD :: u8 where "TAP_SYN_RCVD = 2"
definition ESTABLISHED :: u8 where "ESTABLISHED = 4"
definition TAP_SYN_ACK_SENT :: u8 where "TAP_SYN_ACK_SENT = 8"
definition SOCK_FIN_RCVD :: u8 where "SOCK_FIN_RCVD = 8"
definition SOCK_FIN_SENT :: u8 where "SOCK_FIN_SENT = 16"
definition TAP_FIN_RCVD :: u8 where "TAP_FIN_RCVD = 32"
definition TAP_FIN_SENT :: u8 where "TAP_FIN_SENT = 64"
definition TAP_FIN_ACKED :: u8 where "TAP_FIN_ACKED = 128"

definition CONN_STATE_BITS :: u8 where
  "CONN_STATE_BITS = SOCK_ACCEPTED OR TAP_SYN_RCVD OR ESTABLISHED"

definition STALLED :: u8 where "STALLED = 1"
definition LOCAL :: u8 where "LOCAL = 2"
definition ACTIVE_CLOSE :: u8 where "ACTIVE_CLOSE = 4"
definition ACK_TO_TAP_DUE :: u8 where "ACK_TO_TAP_DUE = 8"
definition ACK_FROM_TAP_DUE :: u8 where "ACK_FROM_TAP_DUE = 16"

text \<open>The epoll event bits of \<^verbatim>\<open><sys/epoll.h>\<close>.\<close>

definition EPOLLIN :: u32 where "EPOLLIN = 0x001"
definition EPOLLOUT :: u32 where "EPOLLOUT = 0x004"
definition EPOLLRDHUP :: u32 where "EPOLLRDHUP = 0x2000"
definition EPOLLET :: u32 where "EPOLLET = 0x80000000"

text \<open>\<^verbatim>\<open>tcp_conn_epoll_events()\<close>: epoll events mask for given connection state.\<close>

definition tcp_conn_epoll_events :: "u8 \<Rightarrow> u8 \<Rightarrow> u32" where
  "tcp_conn_epoll_events evs conn_flags =
     (if evs = 0 then 0
      else if evs AND ESTABLISHED \<noteq> 0 then
        (if evs AND TAP_FIN_SENT \<noteq> 0 then EPOLLET
         else if conn_flags AND STALLED \<noteq> 0 then EPOLLIN OR EPOLLOUT OR EPOLLRDHUP OR EPOLLET
         else EPOLLIN OR EPOLLRDHUP)
      else if evs = TAP_SYN_RCVD then EPOLLOUT OR EPOLLET OR EPOLLRDHUP
      else EPOLLRDHUP)"

text \<open>
  The part of \<^verbatim>\<open>struct tcp_tap_conn\<close> that the functions below read and write.
  \<open>retrans\<close> is a counter whose width is declared outside the sources at hand; it is
  kept as a natural number.
\<close>

record tcp_tap_conn =
  events :: u8
  flags :: u8
  in_epoll :: bool
  sock :: int
  timer :: int
  retrans :: nat
  seq_to_tap :: u32
  seq_ack_from_tap :: u32
  seq_from_tap :: u32
  seq_ack_to_tap :: u32
  wnd_to_tap :: u16

text \<open>
  A flow table entry as \<^verbatim>\<open>flow_alloc()\<close> hands it out (\<^verbatim>\<open>memset(flow, 0, ...)\<close>),
  after \<^verbatim>\<open>conn->sock = s; conn->timer = -1;\<close>.
\<close>

definition new_conn :: "int \<Rightarrow> tcp_tap_conn" where
  "new_conn s = \<lparr>events = 0, flags = 0, in_epoll = False, sock = s, timer = - 1,
     retrans = 0, seq_to_tap = 0, seq_ack_from_tap = 0, seq_from_tap = 0,
     seq_ack_to_tap = 0, wnd_to_tap = 0\<rparr>"

datatype epoll_op = EPOLL_CTL_ADD | EPOLL_CTL_MOD | EPOLL_CTL_DEL

text \<open>
  System calls, and calls to functions that are not unfolded here (\<open>Fn\<close>, by name),
  are recorded in program order as a list of \<open>call\<close>s. \<open>Queue_flags_frame\<close> is a
  segment without data placed in the flags buffer, with its TCP flags.
\<close>

datatype call =
    Socket
  | Accept4
  | Close int
  | Epoll_ctl epoll_op int u32
  | Bind int
  | Bind_ll int
  | Bind_to_device int
  | Listen int
  | Connect int
  | Timerfd_create
  | Timerfd_settime int int int
  | Timerfd_gettime int
  | Getsockopt_tcp_info int
  | Queue_flags_frame u32
  | Fn string

text \<open>\<^verbatim>\<open>errno\<close> values (Linux) and limits.\<close>

definition EINTR :: int where "EINTR = 4"
definition EIO :: int where "EIO = 5"
definition EBADF :: int where "EBADF = 9"
definition EAGAIN :: int where "EAGAIN = 11"
definition EACCES :: int where "EACCES = 13"
definition EINVAL :: int where "EINVAL = 22"
definition ENOSPC :: int where "ENOSPC = 28"
definition EPFNOSUPPORT :: int where "EPFNOSUPPORT = 96"
definition EADDRNOTAVAIL :: int where "EADDRNOTAVAIL = 99"
definition ECONNRESET :: int where "ECONNRESET = 104"
definition ENOBUFS :: int where "ENOBUFS = 105"
definition EINPROGRESS :: int where "EINPROGRESS = 115"

text \<open>
  \<^verbatim>\<open>#define FD_REF_BITS 24\<close>, \<^verbatim>\<open>#define FD_REF_MAX ((int)MAX_FROM_BITS(FD_REF_BITS))\<close>
  (passt.h). Modelled from the spec: the macro \<^verbatim>\<open>MAX_FROM_BITS\<close> is not in the sources
  at hand; the spec gives \<open>FD_REF_MAX = 2 ^ 24 - 1\<close>.
\<close>

definition FD_REF_BITS :: nat where "FD_REF_BITS = 24"

definition FD_REF_MAX :: int where
  "FD_REF_MAX = 2 ^ FD_REF_BITS - 1"

text \<open>TCP flags of tcp.c, and its timeouts.\<close>

definition FIN :: u32 where "FIN = 1"
definition SYN :: u32 where "SYN = 2"
definition RST :: u32 where "RST = 4"
definition ACK :: u32 where "ACK = 16"
definition DUP_ACK :: u32 where "DUP_ACK = 32"

definition ACK_INTERVAL :: int where "ACK_INTERVAL = 10"
definition SYN_TIMEOUT :: int where "SYN_TIMEOUT = 10"
definition ACK_TIMEOUT :: int where "ACK_TIMEOUT = 2"
definition FIN_TIMEOUT :: int where "FIN_TIMEOUT = 60"
definition ACT_TIMEOUT :: int where "ACT_TIMEOUT = 7200"

definition CONN_HAS :: "tcp_tap_conn \<Rightarrow> u8 \<Rightarrow> bool" where
  "CONN_HAS conn evset = (events conn AND evset = evset)"

text \<open>
  What the kernel and the functions that are not unfolded answer during one handler
  run. Results of system calls are \<open>0\<close> for success or the \<^verbatim>\<open>errno\<close> of the failure,
  unless the call returns a descriptor.
  \<^item> \<open>epoll_ctl_err op fd\<close>: \<^verbatim>\<open>epoll_ctl(c->epollfd, op, fd, ...)\<close>;
  \<^item> \<open>timerfd_create_res\<close>: the descriptor from \<^verbatim>\<open>timerfd_create()\<close>, or \<open>-1\<close>;
  \<^item> \<open>tcp_info_err\<close>: \<^verbatim>\<open>getsockopt(s, SOL_TCP, TCP_INFO, ...)\<close>;
  \<^item> \<open>update_seqack_wnd conn flags\<close>: what \<^verbatim>\<open>tcp_update_seqack_wnd()\<close> computes from
    socket state that is not represented (\<^verbatim>\<open>TCP_INFO\<close>, \<^verbatim>\<open>SO_SNDBUF\<close>): its return
    value, the new \<^verbatim>\<open>seq_ack_to_tap\<close>, the new \<^verbatim>\<open>wnd_to_tap\<close>, and whether it reaches
    its \<^verbatim>\<open>conn_flag(c, conn, ACK_TO_TAP_DUE)\<close>;
  \<^item> \<open>flags_buf_full\<close>: the flags buffer has reached the fill level at which
    \<^verbatim>\<open>tcp_send_flag()\<close> flushes it;
  \<^item> \<open>data_from_sock conn\<close>: the connection as \<^verbatim>\<open>tcp_data_from_sock()\<close> leaves it;
  \<^item> \<open>timer_armed\<close>: \<^verbatim>\<open>timerfd_gettime()\<close> reports time left on the timer;
  \<^item> \<open>timer_old_sec\<close>: \<^verbatim>\<open>old.it_value.tv_sec\<close> from \<^verbatim>\<open>timerfd_settime()\<close>.
\<close>

record tcp_sys =
  epoll_ctl_err :: "epoll_op \<Rightarrow> int \<Rightarrow> int"
  timerfd_create_res :: int
  tcp_info_err :: int
  update_seqack_wnd :: "tcp_tap_conn \<Rightarrow> u32 \<Rightarrow> int \<times> u32 \<times> u16 \<times> bool"
  flags_buf_full :: bool
  data_from_sock :: "tcp_tap_conn \<Rightarrow> tcp_tap_conn"
  timer_armed :: bool
  timer_old_sec :: int

text \<open>
  \<^verbatim>\<open>tcp_epoll_ctl()\<close>: add/modify/delete epoll state from connection events.
  \<open>err_sock\<close> and \<open>err_timer\<close> are the \<^verbatim>\<open>errno\<close> values of the two
  \<^verbatim>\<open>epoll_ctl()\<close> calls that can fail the function (\<open>0\<close>: the call succeeds).
  Result: return value, the updated connection, and the calls made.
\<close>

definition tcp_epoll_ctl :: "int \<Rightarrow> int \<Rightarrow> tcp_tap_conn \<Rightarrow> int \<times> tcp_tap_conn \<times> call list" where
  "tcp_epoll_ctl err_sock err_timer conn =
     (let m = (if in_epoll conn then EPOLL_CTL_MOD else EPOLL_CTL_ADD) in
      if events conn = CLOSED then
        (0, conn,
         (if in_epoll conn then [Epoll_ctl EPOLL_CTL_DEL (sock conn) 0] else []) @
         (if timer conn \<noteq> - 1 then [Epoll_ctl EPOLL_CTL_DEL (timer conn) 0] else []))
      else
        (let ev = tcp_conn_epoll_events (events conn) (flags conn) in
         if err_sock \<noteq> 0 then (- err_sock, conn, [Epoll_ctl m (sock conn) ev])
         else
           (let conn' = conn\<lparr>in_epoll := True\<rparr> in
            if timer conn \<noteq> - 1 then
              (if err_timer \<noteq> 0 then - err_timer else 0, conn',
               [Epoll_ctl m (sock conn) ev,
                Epoll_ctl EPOLL_CTL_MOD (timer conn) (EPOLLIN OR EPOLLET)])
            else (0, conn', [Epoll_ctl m (sock conn) ev]))))"

text \<open>\<open>tcp_epoll_ctl\<close> with the kernel's answers taken from \<open>sys\<close>.\<close>

definition tcp_epoll_ctl_sys :: "tcp_sys \<Rightarrow> tcp_tap_conn \<Rightarrow> int \<times> tcp_tap_conn \<times> call list" where
  "tcp_epoll_ctl_sys sys conn =
     tcp_epoll_ctl
       (epoll_ctl_err sys (if in_epoll conn then EPOLL_CTL_MOD else EPOLL_CTL_ADD) (sock conn))
       (epoll_ctl_err sys EPOLL_CTL_MOD (timer conn)) conn"

text \<open>
  \<^verbatim>\<open>tcp_timer_ctl()\<close>: set timerfd based on flags/events, create timerfd if needed.
  \<open>timer_deadline\<close> is the \<^verbatim>\<open>(tv_sec, tv_nsec)\<close> pair it computes.
\<close>

definition timer_deadline :: "tcp_tap_conn \<Rightarrow> int \<times> int" where
  "timer_deadline conn =
     (if flags conn AND ACK_TO_TAP_DUE \<noteq> 0 then (0, ACK_INTERVAL * 1000 * 1000)
      else if flags conn AND ACK_FROM_TAP_DUE \<noteq> 0 then
        (if events conn AND ESTABLISHED = 0 then (SYN_TIMEOUT, 0) else (ACK_TIMEOUT, 0))
      else if CONN_HAS conn (SOCK_FIN_SENT OR TAP_FIN_ACKED) then (FIN_TIMEOUT, 0)
      else (ACT_TIMEOUT, 0))"

definition tcp_timer_ctl :: "tcp_sys \<Rightarrow> tcp_tap_conn \<Rightarrow> tcp_tap_conn \<times> call list" where
  "tcp_timer_ctl sys conn =
     (if events conn = CLOSED then (conn, [])
      else if timer conn = - 1 then
        (let fd = timerfd_create_res sys in
         if fd = - 1 \<or> fd > FD_REF_MAX then
           (conn\<lparr>timer := - 1\<rparr>, Timerfd_create # (if fd > - 1 then [Close fd] else []))
         else if epoll_ctl_err sys EPOLL_CTL_ADD fd \<noteq> 0 then
           (conn\<lparr>timer := - 1\<rparr>,
            [Timerfd_create, Epoll_ctl EPOLL_CTL_ADD fd (EPOLLIN OR EPOLLET), Close fd])
         else
           (conn\<lparr>timer := fd\<rparr>,
            [Timerfd_create, Epoll_ctl EPOLL_CTL_ADD fd (EPOLLIN OR EPOLLET),
             Timerfd_settime fd (fst (timer_deadline conn)) (snd (timer_deadline conn))]))
      else
        (conn, [Timerfd_settime (timer conn) (fst (timer_deadline conn))
                  (snd (timer_deadline conn))]))"

text \<open>
  \<^verbatim>\<open>conn_flag_do()\<close>: set/unset given flag, update epoll on \<^verbatim>\<open>STALLED\<close> flag.
  \<open>flag\<close> is the \<^verbatim>\<open>unsigned long\<close> argument: one bit to set a flag, the complement
  of one bit to unset it.
\<close>

definition conn_flag_do :: "tcp_sys \<Rightarrow> tcp_tap_conn \<Rightarrow> 64 word \<Rightarrow> tcp_tap_conn \<times> call list" where
  "conn_flag_do sys conn flag =
     (let changed =
        (if flag AND (flag - 1) \<noteq> 0 then
           (if ucast (flags conn) AND NOT flag = 0 then None
            else Some (conn\<lparr>flags := ucast (ucast (flags conn) AND flag)\<rparr>))
         else
           (if ucast (flags conn) AND flag \<noteq> 0 then None
            else Some (conn\<lparr>flags := ucast (ucast (flags conn) OR flag)\<rparr>)))
      in case changed of
        None \<Rightarrow>
          (if flag AND (flag - 1) = 0 \<and> flag = ucast ACK_FROM_TAP_DUE
           then tcp_timer_ctl sys conn else (conn, []))
      | Some c1 \<Rightarrow>
          (let (c2, calls2) =
                 (if flag = ucast STALLED \<or> flag = NOT (ucast STALLED)
                  then (let (r, c, cs) = tcp_epoll_ctl_sys sys c1 in (c, cs))
                  else (c1, []));
               (c3, calls3) =
                 (if flag = ucast ACK_FROM_TAP_DUE \<or> flag = ucast ACK_TO_TAP_DUE
                     \<or> (flag = NOT (ucast ACK_FROM_TAP_DUE) \<and> flags c2 AND ACK_TO_TAP_DUE \<noteq> 0)
                     \<or> (flag = NOT (ucast ACK_TO_TAP_DUE) \<and> flags c2 AND ACK_FROM_TAP_DUE \<noteq> 0)
                  then tcp_timer_ctl sys c2 else (c2, []))
           in (c3, calls2 @ calls3)))"

text \<open>
  \<^verbatim>\<open>conn_event_do()\<close>: set connection events, update epoll state. The removal from
  the hash table on \<^verbatim>\<open>CLOSED\<close> is recorded as a call.
\<close>

definition conn_event_do :: "tcp_sys \<Rightarrow> tcp_tap_conn \<Rightarrow> u8 \<Rightarrow> tcp_tap_conn \<times> call list" where
  "conn_event_do sys conn event =
     (if events conn AND event \<noteq> 0 then (conn, [])
      else
        (let c1 = (if event = CLOSED \<or> event AND CONN_STATE_BITS \<noteq> 0
                   then conn\<lparr>events := event\<rparr>
                   else conn\<lparr>events := events conn OR event\<rparr>);
             (c2, calls2) =
               (if event = CLOSED then (c1, [Fn ''tcp_hash_remove''])
                else if event = TAP_FIN_RCVD \<and> events c1 AND SOCK_FIN_RCVD = 0
                  then conn_flag_do sys c1 (ucast ACTIVE_CLOSE)
                else (let (r, c, cs) = tcp_epoll_ctl_sys sys c1 in (c, cs)));
             (c3, calls3) =
               (if CONN_HAS c2 (SOCK_FIN_SENT OR TAP_FIN_ACKED)
                then tcp_timer_ctl sys c2 else (c2, []))
         in (c3, calls2 @ calls3)))"

text \<open>
  \<^verbatim>\<open>tcp_update_seqack_wnd()\<close>: update ACK sequence and window to guest/tap. The
  fields it writes are \<^verbatim>\<open>seq_ack_to_tap\<close> and \<^verbatim>\<open>wnd_to_tap\<close>, and the flags through
  \<^verbatim>\<open>conn_flag()\<close>; the values come from \<open>sys\<close>.
\<close>

definition tcp_update_seqack_wnd ::
  "tcp_sys \<Rightarrow> tcp_tap_conn \<Rightarrow> u32 \<Rightarrow> int \<times> tcp_tap_conn \<times> call list" where
  "tcp_update_seqack_wnd sys conn fl =
     (let (r, ack, wnd, due) = update_seqack_wnd sys conn fl;
          c1 = conn\<lparr>seq_ack_to_tap := ack, wnd_to_tap := wnd\<rparr>;
          (c2, calls2) = (if due then conn_flag_do sys c1 (ucast ACK_TO_TAP_DUE) else (c1, []))
      in (r, c2, calls2))"

text \<open>
  \<^verbatim>\<open>tcp_send_flag()\<close>: send segment with flags to tap (no payload). Return: negative
  error code on connection reset, 0 otherwise. The frame contents are not represented;
  queueing the frame is recorded with the flags it carries.
\<close>

definition tcp_send_flag :: "tcp_sys \<Rightarrow> tcp_tap_conn \<Rightarrow> u32 \<Rightarrow> int \<times> tcp_tap_conn \<times> call list" where
  "tcp_send_flag sys conn fl =
     (if SEQ_GE (seq_ack_to_tap conn) (seq_from_tap conn) \<and> fl = 0 \<and> wnd_to_tap conn \<noteq> 0
      then (0, conn, [])
      else if tcp_info_err sys \<noteq> 0 then
        (let (c1, calls1) = conn_event_do sys conn CLOSED
         in (- ECONNRESET, c1, Getsockopt_tcp_info (sock conn) # calls1))
      else
        (let calls0 = Getsockopt_tcp_info (sock conn) #
                      (if flags conn AND LOCAL = 0 then [Fn ''tcp_rtt_dst_check''] else []);
             (r, c1, callsu) = tcp_update_seqack_wnd sys conn fl;
             calls1 = calls0 @ callsu
         in if r = 0 \<and> fl = 0 then (0, c1, calls1)
            else
              (let fl' = (if fl AND SYN \<noteq> 0 then fl
                          else if fl AND RST = 0 then fl OR ACK else fl);
                   (c2, calls2) =
                     (if fl' AND ACK \<noteq> 0 then
                        (if SEQ_GE (seq_ack_to_tap c1) (seq_from_tap c1)
                         then conn_flag_do sys c1 (NOT (ucast ACK_TO_TAP_DUE))
                         else conn_flag_do sys c1 (ucast ACK_TO_TAP_DUE))
                      else (c1, []));
                   (c3, calls3) =
                     (if fl' AND FIN \<noteq> 0 then conn_flag_do sys c2 (ucast ACK_FROM_TAP_DUE)
                      else (c2, []));
                   c4 = (if fl' AND FIN \<noteq> 0 \<or> fl' AND SYN \<noteq> 0
                         then c3\<lparr>seq_to_tap := seq_to_tap c3 + 1\<rparr> else c3)
               in (0, c4,
                   calls1 @ [Queue_flags_frame fl'] @ calls2 @ calls3 @
                   (if fl' AND DUP_ACK \<noteq> 0 then [Queue_flags_frame fl'] else []) @
                   (if flags_buf_full sys then [Fn ''tcp_l2_flags_buf_flush''] else [])))))"

text \<open>\<^verbatim>\<open>tcp_rst_do()\<close>: reset a tap connection: send RST segment to tap, close socket.\<close>

definition tcp_rst_do :: "tcp_sys \<Rightarrow> tcp_tap_conn \<Rightarrow> tcp_tap_conn \<times> call list" where
  "tcp_rst_do sys conn =
     (if events conn = CLOSED then (conn, [])
      else
        (let (r, c1, calls1) = tcp_send_flag sys conn RST
         in if r = 0 then
              (let (c2, calls2) = conn_event_do sys c1 CLOSED in (c2, calls1 @ calls2))
            else (c1, calls1)))"


text \<open>
  \<^verbatim>\<open>tcp_conn_from_tap()\<close>: handle connection request (SYN segment) from tap.
  The inputs are what the function reads from its arguments and gets back from the
  kernel:
  \<^item> \<open>flow_alloc_ok\<close>: \<^verbatim>\<open>flow_alloc()\<close> returned an entry;
  \<^item> \<open>af_inet6\<close>: the address family is \<^verbatim>\<open>AF_INET6\<close> (otherwise \<^verbatim>\<open>AF_INET\<close>);
  \<^item> \<open>invalid_endpoint\<close>: the value of the endpoint test for that family
    (unspecified, broadcast or multicast address, or port zero);
  \<^item> \<open>conn_sock_res\<close>: the result of \<^verbatim>\<open>tcp_conn_sock()\<close>;
  \<^item> \<open>dst_linklocal\<close>, \<open>dst_loopback\<close>: the destination address, after the gateway
    remapping, is link-local (IPv6), is loopback;
  \<^item> \<open>bind_ll_err\<close>, \<open>bind_err\<close>, \<open>connect_err\<close>: \<^verbatim>\<open>errno\<close> of the \<^verbatim>\<open>bind()\<close> to the
    link-local address, of the \<^verbatim>\<open>bind()\<close> to the destination and of \<^verbatim>\<open>connect()\<close>
    (\<open>0\<close>: success);
  \<^item> \<open>wnd_default\<close>: \<^verbatim>\<open>WINDOW_DEFAULT\<close>; \<open>th_seq\<close>: the SYN's sequence number;
    \<open>isn\<close>: the initial sequence chosen by \<^verbatim>\<open>tcp_seq_init()\<close>.
  Result: the connection entry (\<open>None\<close> when no flow is left allocated) and the calls.
\<close>

record syn_input =
  flow_alloc_ok :: bool
  af_inet6 :: bool
  invalid_endpoint :: bool
  conn_sock_res :: int
  dst_linklocal :: bool
  dst_loopback :: bool
  bind_ll_err :: int
  bind_err :: int
  connect_err :: int
  th_seq :: u32
  isn :: u32

definition WINDOW_DEFAULT :: u16 where "WINDOW_DEFAULT = 14600"

definition tcp_conn_from_tap ::
  "tcp_sys \<Rightarrow> syn_input \<Rightarrow> tcp_tap_conn option \<times> call list" where
  "tcp_conn_from_tap sys inp =
     (if \<not> flow_alloc_ok inp then (None, [Fn ''flow_alloc''])
      else if invalid_endpoint inp then
        (None, [Fn ''flow_alloc'', Fn ''flow_alloc_cancel''])
      else
        (let s = conn_sock_res inp in
         if s < 0 then
           (None, [Fn ''flow_alloc'', Fn ''tcp_conn_sock'', Fn ''flow_alloc_cancel''])
         else if af_inet6 inp \<and> dst_linklocal inp \<and> bind_ll_err inp \<noteq> 0 then
           (None, [Fn ''flow_alloc'', Fn ''tcp_conn_sock'', Bind_ll s, Close s,
                   Fn ''flow_alloc_cancel''])
         else
           (let calls0 = [Fn ''flow_alloc'', Fn ''tcp_conn_sock''] @
                         (if af_inet6 inp \<and> dst_linklocal inp then [Bind_ll s] else []) @
                         [Fn ''flow_start''];
                (c1, calls1) = conn_event_do sys (new_conn s) TAP_SYN_RCVD;
                c2 = c1\<lparr>wnd_to_tap := WINDOW_DEFAULT,
                        seq_from_tap := th_seq inp + 1,
                        seq_ack_to_tap := th_seq inp + 1,
                        seq_to_tap := isn inp,
                        seq_ack_from_tap := isn inp\<rparr>;
                calls2 = calls0 @ calls1 @
                         [Fn ''tcp_conn_tap_mss'', Fn ''setsockopt(TCP_MAXSEG)'',
                          Fn ''tcp_get_tap_ws'', Fn ''tcp_seq_init'', Fn ''tcp_hash_insert'',
                          Bind s]
            in if bind_err inp = 0 then
                 (let (c3, calls3) = tcp_rst_do sys c2 in (Some c3, calls2 @ calls3))
               else
                 (let (c3, calls3) =
                        (if bind_err inp \<noteq> EADDRNOTAVAIL \<and> bind_err inp \<noteq> EACCES
                         then conn_flag_do sys c2 (ucast LOCAL) else (c2, []));
                      calls4 = calls2 @ calls3 @
                        (if (\<not> af_inet6 inp \<and> \<not> dst_loopback inp)
                            \<or> (af_inet6 inp \<and> \<not> dst_loopback inp \<and> \<not> dst_linklocal inp)
                         then [Fn ''tcp_bind_outbound''] else []) @
                        [Connect s]
                  in if connect_err inp \<noteq> 0 then
                       (if connect_err inp \<noteq> EINPROGRESS then
                          (let (c5, calls5) = tcp_rst_do sys c3
                           in (Some c5, calls4 @ calls5))
                        else
                          (let (r, c5, calls5) = tcp_epoll_ctl_sys sys c3
                           in (Some c5, calls4 @ [Fn ''tcp_get_sndbuf''] @ calls5)))
                     else
                       (let (r, c5, calls5) = tcp_send_flag sys c3 (SYN OR ACK)
                        in if r \<noteq> 0 then
                             (Some c5, calls4 @ [Fn ''tcp_get_sndbuf''] @ calls5)
                           else
                             (let (c6, calls6) = conn_event_do sys c5 TAP_SYN_ACK_SENT;
                                  (r7, c7, calls7) = tcp_epoll_ctl_sys sys c6
                              in (Some c7, calls4 @ [Fn ''tcp_get_sndbuf''] @ calls5 @
                                           calls6 @ calls7)))))))"

subsection \<open>UDP reverse port map (udp.c)\<close>

text \<open>
  \<^verbatim>\<open>udp_invert_portmap()\<close>: compute reverse port translations for return packets.
  The arrays \<^verbatim>\<open>fwd->f.delta[]\<close> and \<^verbatim>\<open>fwd->rdelta[]\<close> have \<^verbatim>\<open>NUM_PORTS\<close> entries of
  type \<^verbatim>\<open>in_port_t\<close>; they are functions on 16-bit ports here. One iteration of the
  loop body is \<open>invert_step\<close>: \<^verbatim>\<open>rport = i + delta\<close> wraps to 16 bits, and
  \<^verbatim>\<open>NUM_PORTS - delta\<close> is truncated to 16 bits by the store.
\<close>

definition NUM_PORTS :: nat where
  "NUM_PORTS = 65536"

definition invert_step :: "(u16 \<Rightarrow> u16) \<Rightarrow> nat \<Rightarrow> (u16 \<Rightarrow> u16) \<Rightarrow> (u16 \<Rightarrow> u16)" where
  "invert_step fdelta i rdelta =
     (let delta = fdelta (of_nat i);
          rport = (of_nat i + delta :: u16)
      in if delta \<noteq> 0 then rdelta(rport := of_nat (NUM_PORTS - unat delta)) else rdelta)"

definition udp_invert_portmap :: "(u16 \<Rightarrow> u16) \<Rightarrow> (u16 \<Rightarrow> u16) \<Rightarrow> (u16 \<Rightarrow> u16)" where
  "udp_invert_portmap fdelta rdelta = fold (invert_step fdelta) [0..<NUM_PORTS] rdelta"

text \<open>
  Two forward maps used as concrete inputs: \<^verbatim>\<open>-u 10:12,11:12\<close> forwards ports 10 and
  11 to the same port 12; \<^verbatim>\<open>-u 8080:80\<close> forwards one port.
\<close>

definition fwd_two_to_one :: "u16 \<Rightarrow> u16" where
  "fwd_two_to_one q = (if q = 10 then 2 else if q = 11 then 1 else 0)"

definition fwd_single :: "u16 \<Rightarrow> u16" where
  "fwd_single q = (if q = 8080 then 65536 - 8000 else 0)"

text \<open>
  \<^verbatim>\<open>tcp_conn_new_sock()\<close>: open and prepare new socket for connection. \<open>s\<close> is what
  \<^verbatim>\<open>socket()\<close> returns and \<open>err\<close> its \<^verbatim>\<open>errno\<close>. Return: socket number on success,
  negative code if socket creation failed.
\<close>

definition tcp_conn_new_sock :: "int \<Rightarrow> int \<Rightarrow> int \<times> call list" where
  "tcp_conn_new_sock s err =
     (if s > FD_REF_MAX then (- EIO, [Socket, Close s])
      else if s < 0 then (- err, [Socket])
      else (s, [Socket, Fn ''tcp_sock_set_bufsize'']))"

text \<open>
  \<^verbatim>\<open>tcp_listen_handler()\<close>: handle new connection request from listening socket.
  \<open>s\<close> is what \<^verbatim>\<open>accept4()\<close> returns, \<open>invalid_peer\<close> the value of the endpoint test on
  the peer address, \<open>spliced\<close> the return value of \<^verbatim>\<open>tcp_splice_conn_from_sock()\<close>.
  The two functions that take over the accepted socket are recorded, not unfolded.
\<close>

definition tcp_listen_handler :: "bool \<Rightarrow> bool \<Rightarrow> int \<Rightarrow> bool \<Rightarrow> bool \<Rightarrow> call list" where
  "tcp_listen_handler no_tcp flow_ok s invalid_peer spliced =
     (if no_tcp then []
      else if \<not> flow_ok then [Fn ''flow_alloc'']
      else if s < 0 then [Fn ''flow_alloc'', Accept4, Fn ''flow_alloc_cancel'']
      else if invalid_peer then [Fn ''flow_alloc'', Accept4, Fn ''flow_alloc_cancel'']
      else if spliced then [Fn ''flow_alloc'', Accept4, Fn ''tcp_splice_conn_from_sock'']
      else [Fn ''flow_alloc'', Accept4, Fn ''tcp_splice_conn_from_sock'',
            Fn ''tcp_tap_conn_from_sock''])"

subsection \<open>Socket creation (util.c)\<close>

definition AF_UNSPEC :: int where "AF_UNSPEC = 0"
definition AF_INET :: int where "AF_INET = 2"
definition AF_INET6 :: int where "AF_INET6 = 10"

definition IPPROTO_ICMP :: u8 where "IPPROTO_ICMP = 1"
definition IPPROTO_TCP :: u8 where "IPPROTO_TCP = 6"
definition IPPROTO_UDP :: u8 where "IPPROTO_UDP = 17"
definition IPPROTO_ICMPV6 :: u8 where "IPPROTO_ICMPV6 = 58"

text \<open>
  The kernel's answers to \<^verbatim>\<open>sock_l4()\<close>: the descriptor from \<^verbatim>\<open>socket()\<close> (or \<open>-1\<close>)
  with its \<^verbatim>\<open>errno\<close>, and the \<^verbatim>\<open>errno\<close> (\<open>0\<close>: success) of
  \<^verbatim>\<open>setsockopt(SO_BINDTODEVICE)\<close>, \<^verbatim>\<open>bind()\<close>, \<^verbatim>\<open>listen()\<close> and \<^verbatim>\<open>epoll_ctl()\<close>.
\<close>

record sock_l4_sys =
  l4_socket_res :: int
  l4_socket_errno :: int
  l4_bindtodevice_err :: int
  l4_bind_err :: int
  l4_listen_err :: int
  l4_epoll_err :: int

text \<open>
  \<^verbatim>\<open>sock_l4()\<close>: create and bind socket for given L4, add to epoll list.
  \<open>dual_stack_sockets\<close> is the build-time constant \<^verbatim>\<open>DUAL_STACK_SOCKETS\<close>;
  \<open>have_bind_addr\<close> is \<^verbatim>\<open>bind_addr != NULL\<close>, \<open>have_ifname\<close> is
  \<^verbatim>\<open>ifname && *ifname\<close>. Return: newly created socket, negative error code on failure.
\<close>

definition sock_l4 ::
  "sock_l4_sys \<Rightarrow> bool \<Rightarrow> int \<Rightarrow> u8 \<Rightarrow> bool \<Rightarrow> bool \<Rightarrow> int \<times> call list" where
  "sock_l4 k dual_stack_sockets af proto have_bind_addr have_ifname =
     (if proto \<noteq> IPPROTO_TCP \<and> proto \<noteq> IPPROTO_UDP \<and> proto \<noteq> IPPROTO_ICMP
         \<and> proto \<noteq> IPPROTO_ICMPV6 then (- EPFNOSUPPORT, [])
      else if af = AF_UNSPEC \<and> (\<not> dual_stack_sockets \<or> have_bind_addr) then (- EINVAL, [])
      else
        (let dual_stack = (af = AF_UNSPEC);
             af' = (if af = AF_UNSPEC then AF_INET6 else af);
             fd = l4_socket_res k
         in if fd < 0 then (- l4_socket_errno k, [Socket])
            else if fd > FD_REF_MAX then (- EBADF, [Socket, Close fd])
            else
              (let calls1 = [Socket] @
                     (if af' \<noteq> AF_INET \<and> \<not> dual_stack
                      then [Fn ''setsockopt(IPV6_V6ONLY)''] else []) @
                     [Fn ''setsockopt(SO_REUSEADDR)'']
               in if have_ifname \<and> l4_bindtodevice_err k \<noteq> 0 then
                    (- l4_bindtodevice_err k, calls1 @ [Bind_to_device fd, Close fd])
                  else
                    (let calls2 = calls1 @ (if have_ifname then [Bind_to_device fd] else []) @
                                  [Bind fd]
                     in if l4_bind_err k \<noteq> 0 \<and> proto \<noteq> IPPROTO_ICMP
                           \<and> proto \<noteq> IPPROTO_ICMPV6 then
                          (- l4_bind_err k, calls2 @ [Close fd])
                        else if proto = IPPROTO_TCP \<and> l4_listen_err k \<noteq> 0 then
                          (- l4_listen_err k, calls2 @ [Listen fd, Close fd])
                        else
                          (let calls3 = calls2 @
                                 (if proto = IPPROTO_TCP then [Listen fd] else []) @
                                 [Epoll_ctl EPOLL_CTL_ADD fd EPOLLIN]
                           in if l4_epoll_err k \<noteq> 0 then (- l4_epoll_err k, calls3)
                              else (fd, calls3))))))"

subsection \<open>Concrete inputs for the TCP functions\<close>

text \<open>
  A kernel on which every call succeeds, no timer is pending, and the window and ACK
  bookkeeping leaves the connection as it is.
\<close>

definition sys_quiet :: tcp_sys where
  "sys_quiet = \<lparr>epoll_ctl_err = (\<lambda>_ _. 0), timerfd_create_res = 9, tcp_info_err = 0,
     update_seqack_wnd = (\<lambda>c _. (0, seq_ack_to_tap c, wnd_to_tap c, False)),
     flags_buf_full = False, data_from_sock = (\<lambda>c. c), timer_armed = False,
     timer_old_sec = 0\<rparr>"



text \<open>
  A kernel like \<open>sys_quiet\<close> on which \<^verbatim>\<open>getsockopt(TCP_INFO)\<close> fails with \<^verbatim>\<open>EBADF\<close>;
  and the connection \<open>conn_both_due\<close> after ten bytes from the guest that are not yet
  acknowledged (\<open>seq_from_tap\<close> ahead of \<open>seq_ack_to_tap\<close>), so that an ACK has to be
  built.
\<close>

definition sys_no_info :: tcp_sys where
  "sys_no_info = sys_quiet\<lparr>tcp_info_err := EBADF\<rparr>"


text \<open>
  A SYN from the guest to an IPv4 destination that is not loopback, on socket 5; the
  \<^verbatim>\<open>bind()\<close> to the destination succeeds (\<open>syn_port_free\<close>) or fails with
  \<^verbatim>\<open>EADDRINUSE\<close> \<open>= 98\<close> (\<open>syn_port_taken\<close>), and \<^verbatim>\<open>connect()\<close> is in progress.
\<close>

definition syn_port_free :: syn_input where
  "syn_port_free = \<lparr>flow_alloc_ok = True, af_inet6 = False, invalid_endpoint = False,
     conn_sock_res = 5, dst_linklocal = False, dst_loopback = False, bind_ll_err = 0,
     bind_err = 0, connect_err = EINPROGRESS, th_seq = 1000, isn = 7000\<rparr>"

definition syn_port_taken :: syn_input where
  "syn_port_taken = syn_port_free\<lparr>bind_err := 98\<rparr>"

text \<open>A kernel that hands out descriptor \<open>2 ^ 24\<close> to \<^verbatim>\<open>sock_l4()\<close>.\<close>

definition l4_high_fd :: sock_l4_sys where
  "l4_high_fd = \<lparr>l4_socket_res = 16777216, l4_socket_errno = 0, l4_bindtodevice_err = 0,
     l4_bind_err = 0, l4_listen_err = 0, l4_epoll_err = 0\<rparr>"

subsection \<open>Sending frames to the tap (tap.c) and the TCP data buffers (tcp.c)\<close>

text \<open>\<^verbatim>\<open>enum passt_modes\<close> (passt.h).\<close>

datatype passt_mode = MODE_PASST | MODE_PASTA

text \<open>
  What the kernel answers to one call of \<^verbatim>\<open>tap_send_frames()\<close>:
  \<^item> \<open>writev_res i\<close>: return value and \<^verbatim>\<open>errno\<close> of the \<^verbatim>\<open>writev()\<close> for the frame
    that starts at buffer \<open>i\<close> (pasta);
  \<^item> \<open>sendmsg_res\<close>: return value of the \<^verbatim>\<open>sendmsg()\<close> (passt);
  \<^item> \<open>iov_skip_res\<close>: what \<^verbatim>\<open>iov_skip_bytes()\<close>, whose source is not at hand, returns
    for the bytes sent: the index of the first buffer not sent in full, and the offset
    reached in it;
  \<^item> \<open>write_remainder_res\<close>: return value of \<^verbatim>\<open>write_remainder()\<close>.
  A vector of buffers is given by the length \<^verbatim>\<open>iov_len\<close> of each entry.
\<close>

record tap_sys =
  writev_res :: "nat \<Rightarrow> int \<times> int"
  sendmsg_res :: int
  iov_skip_res :: "nat \<times> nat"
  write_remainder_res :: int

text \<open>\<^verbatim>\<open>die()\<close> ends the process; it is the error value of the functions below.\<close>

datatype fatal = Die string

definition iov_size :: "(nat \<Rightarrow> nat) \<Rightarrow> nat \<Rightarrow> nat \<Rightarrow> nat" where
  "iov_size iov i cnt = (\<Sum>j = i..<i + cnt. iov j)"

text \<open>
  \<^verbatim>\<open>tap_send_frames_pasta()\<close>: send multiple frames to the pasta tap. The function is
  the \<^verbatim>\<open>for\<close> loop over \<open>i\<close>; in the error branch, the \<^verbatim>\<open>break\<close> of the
  \<^verbatim>\<open>switch (errno)\<close> leaves the \<^verbatim>\<open>switch\<close>, and the loop goes on with the next
  frame; in the short-write branch, the \<^verbatim>\<open>break\<close> leaves the loop. (\<^verbatim>\<open>EWOULDBLOCK\<close> is
  \<^verbatim>\<open>EAGAIN\<close> on Linux.)
\<close>

function tap_send_frames_pasta_loop ::
  "tap_sys \<Rightarrow> (nat \<Rightarrow> nat) \<Rightarrow> nat \<Rightarrow> nat \<Rightarrow> nat \<Rightarrow> fatal + nat" where
  "tap_send_frames_pasta_loop k iov bufs_per_frame nbufs i =
     (if i < nbufs \<and> 0 < bufs_per_frame then
        (let (rc, err) = writev_res k i;
             framelen = iov_size iov i bufs_per_frame
         in if rc < 0 then
              (if err = EAGAIN \<or> err = EINTR \<or> err = ENOBUFS \<or> err = ENOSPC
               then tap_send_frames_pasta_loop k iov bufs_per_frame nbufs (i + bufs_per_frame)
               else Inl (Die ''Write error on tap device, exiting''))
            else if nat rc < framelen then Inr i
            else tap_send_frames_pasta_loop k iov bufs_per_frame nbufs (i + bufs_per_frame))
      else Inr i)"
  by pat_completeness auto
termination
  by (relation "measure (\<lambda>(k, iov, b, n, i). n - i)") auto

definition tap_send_frames_pasta :: "tap_sys \<Rightarrow> (nat \<Rightarrow> nat) \<Rightarrow> nat \<Rightarrow> nat \<Rightarrow> fatal + nat" where
  "tap_send_frames_pasta k iov bufs_per_frame nframes =
     (case tap_send_frames_pasta_loop k iov bufs_per_frame (bufs_per_frame * nframes) 0 of
        Inl e \<Rightarrow> Inl e
      | Inr i \<Rightarrow> Inr (i div bufs_per_frame))"

text \<open>\<^verbatim>\<open>tap_send_frames_passt()\<close>: send multiple frames to the passt tap.\<close>

definition tap_send_frames_passt :: "tap_sys \<Rightarrow> nat \<Rightarrow> nat \<Rightarrow> nat" where
  "tap_send_frames_passt k bufs_per_frame nframes =
     (let nbufs = bufs_per_frame * nframes in
      if sendmsg_res k < 0 then 0
      else
        (let (i, buf_offset) = iov_skip_res k in
         if i < nbufs \<and> (buf_offset \<noteq> 0 \<or> i mod bufs_per_frame \<noteq> 0) then
           (let rembufs = bufs_per_frame - i mod bufs_per_frame in
            if write_remainder_res k < 0 then i
            else (i + rembufs) div bufs_per_frame)
         else i div bufs_per_frame))"

text \<open>
  \<^verbatim>\<open>tap_send_frames()\<close>: send out multiple prepared frames. Return: number of frames
  actually sent.
\<close>

definition tap_send_frames ::
  "passt_mode \<Rightarrow> tap_sys \<Rightarrow> (nat \<Rightarrow> nat) \<Rightarrow> nat \<Rightarrow> nat \<Rightarrow> fatal + nat" where
  "tap_send_frames mode k iov bufs_per_frame nframes =
     (if nframes = 0 then Inr 0
      else if mode = MODE_PASST then Inr (tap_send_frames_passt k bufs_per_frame nframes)
      else tap_send_frames_pasta k iov bufs_per_frame nframes)"

text \<open>
  \<^verbatim>\<open>struct tcp_buf_seq_update\<close>: sequences to update with length of frames once sent.
  The pointer \<^verbatim>\<open>seq\<close> points to the \<^verbatim>\<open>seq_to_tap\<close> of a connection; it is the index
  of that connection here, and \<open>conn_seq_to_tap\<close> is the memory it points into.
\<close>

record tcp_buf_seq_update =
  su_seq :: nat
  su_len :: u16

record tcp_l2_state =
  conn_seq_to_tap :: "nat \<Rightarrow> u32"
  tcp4_l2_buf_seq_update :: "nat \<Rightarrow> tcp_buf_seq_update"
  tcp4_l2_iov :: "nat \<Rightarrow> nat"
  tcp4_l2_buf_used :: nat
  tcp6_l2_buf_seq_update :: "nat \<Rightarrow> tcp_buf_seq_update"
  tcp6_l2_iov :: "nat \<Rightarrow> nat"
  tcp6_l2_buf_used :: nat

text \<open>
  \<^verbatim>\<open>for (i = 0; i < m; i++) *seq_update[i].seq += seq_update[i].len;\<close>
\<close>

definition seq_update_step :: "(nat \<Rightarrow> tcp_buf_seq_update) \<Rightarrow> nat \<Rightarrow> (nat \<Rightarrow> u32) \<Rightarrow> (nat \<Rightarrow> u32)" where
  "seq_update_step su i seqs = seqs(su_seq (su i) := seqs (su_seq (su i)) + ucast (su_len (su i)))"

definition seq_updates :: "(nat \<Rightarrow> tcp_buf_seq_update) \<Rightarrow> nat \<Rightarrow> (nat \<Rightarrow> u32) \<Rightarrow> (nat \<Rightarrow> u32)" where
  "seq_updates su m seqs = fold (seq_update_step su) [0..<m] seqs"

text \<open>
  \<^verbatim>\<open>tcp_l2_data_buf_flush()\<close>: send out buffers for segments with data. \<open>k6\<close> and
  \<open>k4\<close> are the kernel's answers to the IPv6 and to the IPv4 batch.
\<close>

definition tcp_l2_data_buf_flush ::
  "passt_mode \<Rightarrow> tap_sys \<Rightarrow> tap_sys \<Rightarrow> tcp_l2_state \<Rightarrow> fatal + tcp_l2_state" where
  "tcp_l2_data_buf_flush mode k6 k4 st =
     (case tap_send_frames mode k6 (tcp6_l2_iov st) 1 (tcp6_l2_buf_used st) of
        Inl e \<Rightarrow> Inl e
      | Inr m6 \<Rightarrow>
          (let st1 = st\<lparr>conn_seq_to_tap :=
                          seq_updates (tcp6_l2_buf_seq_update st) m6 (conn_seq_to_tap st),
                        tcp6_l2_buf_used := 0\<rparr>
           in case tap_send_frames mode k4 (tcp4_l2_iov st1) 1 (tcp4_l2_buf_used st1) of
                Inl e \<Rightarrow> Inl e
              | Inr m4 \<Rightarrow>
                  Inr (st1\<lparr>conn_seq_to_tap :=
                              seq_updates (tcp4_l2_buf_seq_update st1) m4 (conn_seq_to_tap st1),
                            tcp4_l2_buf_used := 0\<rparr>)))"

text \<open>
  \<^verbatim>\<open>tcp_data_to_tap()\<close>: finalise (queue) highest-numbered scatter-gather buffer.
  \<open>v4\<close> is \<^verbatim>\<open>CONN_V4(conn)\<close>, \<open>conn\<close> the connection, \<open>plen\<close> the payload length
  (stored in the 16-bit \<^verbatim>\<open>len\<close>), \<open>frame_len\<close> the frame length that
  \<^verbatim>\<open>tcp_l2_buf_fill_headers()\<close> returns.
\<close>

definition TCP_FRAMES_MEM :: nat where "TCP_FRAMES_MEM = 128"

definition tcp_data_to_tap ::
  "passt_mode \<Rightarrow> tap_sys \<Rightarrow> tap_sys \<Rightarrow> tcp_l2_state \<Rightarrow> bool \<Rightarrow> nat \<Rightarrow> int \<Rightarrow> nat \<Rightarrow> fatal + tcp_l2_state" where
  "tcp_data_to_tap mode k6 k4 st v4 conn plen frame_len =
     (if v4 then
        (let u = tcp4_l2_buf_used st;
             st1 = st\<lparr>tcp4_l2_buf_seq_update := (tcp4_l2_buf_seq_update st)
                         (u := \<lparr>su_seq = conn, su_len = of_int plen\<rparr>),
                       tcp4_l2_iov := (tcp4_l2_iov st)(u := frame_len),
                       tcp4_l2_buf_used := u + 1\<rparr>
         in if tcp4_l2_buf_used st1 > TCP_FRAMES_MEM - 1
            then tcp_l2_data_buf_flush mode k6 k4 st1 else Inr st1)
      else
        (let u = tcp6_l2_buf_used st;
             st1 = st\<lparr>tcp6_l2_buf_seq_update := (tcp6_l2_buf_seq_update st)
                         (u := \<lparr>su_seq = conn, su_len = of_int plen\<rparr>),
                       tcp6_l2_iov := (tcp6_l2_iov st)(u := frame_len),
                       tcp6_l2_buf_used := u + 1\<rparr>
         in if tcp6_l2_buf_used st1 > TCP_FRAMES_MEM - 1
            then tcp_l2_data_buf_flush mode k6 k4 st1 else Inr st1))"

text \<open>
  Empty buffers with every connection at sequence 1000, and a tap on which every write
  fails with \<^verbatim>\<open>EAGAIN\<close>.
\<close>

definition l2_empty :: tcp_l2_state where
  "l2_empty = \<lparr>conn_seq_to_tap = (\<lambda>_. 1000),
     tcp4_l2_buf_seq_update = (\<lambda>_. \<lparr>su_seq = 0, su_len = 0\<rparr>), tcp4_l2_iov = (\<lambda>_. 0),
     tcp4_l2_buf_used = 0,
     tcp6_l2_buf_seq_update = (\<lambda>_. \<lparr>su_seq = 0, su_len = 0\<rparr>), tcp6_l2_iov = (\<lambda>_. 0),
     tcp6_l2_buf_used = 0\<rparr>"

definition tap_eagain :: tap_sys where
  "tap_eagain = \<lparr>writev_res = (\<lambda>_. (- 1, EAGAIN)), sendmsg_res = - 1, iov_skip_res = (0, 0),
     write_remainder_res = - 1\<rparr>"

definition l2_one_frame :: tcp_l2_state where
  "l2_one_frame = l2_empty\<lparr>
     tcp4_l2_buf_seq_update := (tcp4_l2_buf_seq_update l2_empty)(0 := \<lparr>su_seq = 0, su_len = 100\<rparr>),
     tcp4_l2_iov := (tcp4_l2_iov l2_empty)(0 := 154),
     tcp4_l2_buf_used := 1\<rparr>"

subsection \<open>UDP binding expiry and the UDP timer (udp.c)\<close>













text \<open>
  Modelled from the spec: \<^verbatim>\<open>enum port_fwd_mode\<close> is declared in a header that is not in
  the sources at hand. The spec: \<open>mode \<in> {NONE, SPEC, AUTO, ALL}\<close>.
\<close>

datatype port_fwd_mode = FWD_NONE | FWD_SPEC | FWD_AUTO | FWD_ALL

























subsection \<open>TCP hash table (tcp.c)\<close>

text \<open>
  Modelled from the spec: \<^verbatim>\<open>flow_sidx_t\<close>, \<^verbatim>\<open>FLOW_SIDX_NONE\<close>, \<^verbatim>\<open>flow_sidx_eq()\<close>,
  \<^verbatim>\<open>flow_at_sidx()\<close> and \<^verbatim>\<open>FLOW_MAX\<close> are declared in headers that are not in the
  sources at hand. The spec: buckets hold either \<^verbatim>\<open>NONE\<close> or a flow-side index (a flow
  index with a side). \<^verbatim>\<open>NONE\<close> is the side index whose flow index is the table size
  \<^verbatim>\<open>FLOW_MAX\<close>, the one for which \<^verbatim>\<open>flow_at_sidx()\<close> has no flow; \<open>flow_max\<close> is a
  parameter.
\<close>

record flow_sidx =
  side :: nat
  flow :: nat

definition TAPSIDE :: nat where "TAPSIDE = 1"

definition FLOW_SIDX_NONE :: "nat \<Rightarrow> flow_sidx" where
  "FLOW_SIDX_NONE flow_max = \<lparr>side = 0, flow = flow_max\<rparr>"

definition flow_sidx_eq :: "flow_sidx \<Rightarrow> flow_sidx \<Rightarrow> bool" where
  "flow_sidx_eq a b = (side a = side b \<and> flow a = flow b)"

definition flow_at_sidx :: "nat \<Rightarrow> flow_sidx \<Rightarrow> nat option" where
  "flow_at_sidx flow_max sidx = (if flow sidx \<ge> flow_max then None else Some (flow sidx))"

definition FLOW_SIDX :: "nat \<Rightarrow> nat \<Rightarrow> flow_sidx" where
  "FLOW_SIDX conn sd = \<lparr>side = sd, flow = conn\<rparr>"

text \<open>
  \<^verbatim>\<open>#define TCP_HASH_TABLE_LOAD 70\<close>,
  \<^verbatim>\<open>#define TCP_HASH_TABLE_SIZE (FLOW_MAX * 100 / TCP_HASH_TABLE_LOAD)\<close>.
\<close>

definition TCP_HASH_TABLE_LOAD :: nat where "TCP_HASH_TABLE_LOAD = 70"
definition TCP_HASH_TABLE_SIZE :: "nat \<Rightarrow> nat" where
  "TCP_HASH_TABLE_SIZE flow_max = flow_max * 100 div TCP_HASH_TABLE_LOAD"

text \<open>
  Modelled from the spec: \<^verbatim>\<open>mod_sub()\<close> and \<^verbatim>\<open>mod_between()\<close> are not in the sources at
  hand. The spec: linear probing with step \<open>-1 (mod size)\<close>; removal scans backward
  until it finds an entry whose ideal bucket is not in the interval between the probe
  position and the removed slot. \<open>mod_sub a b m\<close> is \<open>(a - b) mod m\<close> for \<open>a, b < m\<close>;
  \<open>mod_between x i j m\<close> says that \<open>x\<close> lies in the cyclic range from \<open>i\<close> (included)
  to \<open>j\<close> (excluded).
\<close>

definition mod_sub :: "nat \<Rightarrow> nat \<Rightarrow> nat \<Rightarrow> nat" where
  "mod_sub a b m = (if a < b then a + m - b else a - b)"

definition mod_between :: "nat \<Rightarrow> nat \<Rightarrow> nat \<Rightarrow> nat \<Rightarrow> bool" where
  "mod_between x i j m = (mod_sub x i m < mod_sub j i m)"

text \<open>
  The key of a connection: remote address (\<^verbatim>\<open>union inany_addr\<close>, 16 bytes), guest side
  endpoint port, guest side forwarding port. \<open>hc_conn_key\<close> gives the key stored in
  the flow table entry of each connection, and \<open>hc_tcp_hash\<close> is \<^verbatim>\<open>tcp_hash()\<close>
  (siphash with the secret of the context, not in the sources at hand) as a function of
  the key.
\<close>

record tcp_key =
  faddr :: "128 word"
  eport :: u16
  fport :: u16

record hash_ctx =
  hc_flow_max :: nat
  hc_conn_key :: "nat \<Rightarrow> tcp_key"
  hc_tcp_hash :: "tcp_key \<Rightarrow> 64 word"

text \<open>\<^verbatim>\<open>tcp_hash_match()\<close>, \<^verbatim>\<open>tcp_conn_hash()\<close>.\<close>

definition tcp_hash_match :: "tcp_key \<Rightarrow> tcp_key \<Rightarrow> bool" where
  "tcp_hash_match conn k = (faddr conn = faddr k \<and> eport conn = eport k \<and> fport conn = fport k)"

definition tcp_conn_hash :: "hash_ctx \<Rightarrow> nat \<Rightarrow> 64 word" where
  "tcp_conn_hash hc conn = hc_tcp_hash hc (hc_conn_key hc conn)"

text \<open>
  \<^verbatim>\<open>tcp_hash_probe()\<close>: find hash bucket for a connection. The \<^verbatim>\<open>while\<close> loop has no
  bound of its own (it relies on the table holding an empty bucket), so it is a
  partial function: \<open>None\<close> stands for a loop that does not end. \<open>tc\<close> is \<^verbatim>\<open>tc_hash[]\<close>.
\<close>

partial_function (option) probe_loop :: "hash_ctx \<Rightarrow> flow_sidx list \<Rightarrow> flow_sidx \<Rightarrow> nat \<Rightarrow> nat option" where
  "probe_loop hc tc sidx b =
     (if \<not> flow_sidx_eq (tc ! b) (FLOW_SIDX_NONE (hc_flow_max hc)) \<and> \<not> flow_sidx_eq (tc ! b) sidx
      then probe_loop hc tc sidx (mod_sub b 1 (TCP_HASH_TABLE_SIZE (hc_flow_max hc)))
      else Some b)"

declare probe_loop.simps [code]

definition tcp_hash_probe :: "hash_ctx \<Rightarrow> flow_sidx list \<Rightarrow> nat \<Rightarrow> nat option" where
  "tcp_hash_probe hc tc conn =
     probe_loop hc tc (FLOW_SIDX conn TAPSIDE)
       (unat (tcp_conn_hash hc conn) mod TCP_HASH_TABLE_SIZE (hc_flow_max hc))"

text \<open>\<^verbatim>\<open>tcp_hash_insert()\<close>: insert connection into hash table.\<close>

definition tcp_hash_insert :: "hash_ctx \<Rightarrow> flow_sidx list \<Rightarrow> nat \<Rightarrow> flow_sidx list option" where
  "tcp_hash_insert hc tc conn =
     (case tcp_hash_probe hc tc conn of
        None \<Rightarrow> None
      | Some b \<Rightarrow> Some (tc[b := FLOW_SIDX conn TAPSIDE]))"

text \<open>
  \<^verbatim>\<open>tcp_hash_remove()\<close>: drop connection from hash table. \<open>remove_loop\<close> is its
  \<^verbatim>\<open>for\<close> loop over \<open>s\<close> ("scan the remainder of the cluster"), ending with
  \<^verbatim>\<open>tc_hash[b] = FLOW_SIDX_NONE\<close>.
\<close>

partial_function (option) remove_loop :: "hash_ctx \<Rightarrow> flow_sidx list \<Rightarrow> nat \<Rightarrow> nat \<Rightarrow> flow_sidx list option" where
  "remove_loop hc tc b s =
     (case flow_at_sidx (hc_flow_max hc) (tc ! s) of
        None \<Rightarrow> Some (tc[b := FLOW_SIDX_NONE (hc_flow_max hc)])
      | Some f \<Rightarrow>
          (let h = unat (tcp_conn_hash hc f) mod TCP_HASH_TABLE_SIZE (hc_flow_max hc) in
           if \<not> mod_between h s b (TCP_HASH_TABLE_SIZE (hc_flow_max hc))
           then remove_loop hc (tc[b := tc ! s]) s
                  (mod_sub s 1 (TCP_HASH_TABLE_SIZE (hc_flow_max hc)))
           else remove_loop hc tc b (mod_sub s 1 (TCP_HASH_TABLE_SIZE (hc_flow_max hc)))))"

declare remove_loop.simps [code]

definition tcp_hash_remove :: "hash_ctx \<Rightarrow> flow_sidx list \<Rightarrow> nat \<Rightarrow> flow_sidx list option" where
  "tcp_hash_remove hc tc conn =
     (case tcp_hash_probe hc tc conn of
        None \<Rightarrow> None
      | Some b \<Rightarrow>
          (case flow_at_sidx (hc_flow_max hc) (tc ! b) of
             None \<Rightarrow> Some tc
           | Some f \<Rightarrow> remove_loop hc tc b (mod_sub b 1 (TCP_HASH_TABLE_SIZE (hc_flow_max hc)))))"

text \<open>
  A table for four flows (five buckets). Connections 0 and 1 have the same key;
  connection 2 has another key whose hash falls into the same bucket 3.
\<close>

definition key_a :: tcp_key where "key_a = \<lparr>faddr = 1, eport = 40000, fport = 80\<rparr>"
definition key_b :: tcp_key where "key_b = \<lparr>faddr = 1, eport = 40001, fport = 80\<rparr>"

definition hc_small :: hash_ctx where
  "hc_small = \<lparr>hc_flow_max = 4, hc_conn_key = (\<lambda>i. if i = 2 then key_b else key_a),
     hc_tcp_hash = (\<lambda>k. if eport k = 40001 then 8 else 3)\<rparr>"

definition tc_none :: flow_sidx where "tc_none = FLOW_SIDX_NONE 4"
definition tc_empty :: "flow_sidx list" where "tc_empty = replicate 5 tc_none"

text \<open>
  The same table and keys with a hash that sends the key of connection 2 to bucket 2
  (\<open>7 mod 5\<close>), and the table that holds connection 2 in bucket 2 and connection 0
  in bucket 3.
\<close>

definition hc_apart :: hash_ctx where
  "hc_apart = \<lparr>hc_flow_max = 4, hc_conn_key = (\<lambda>i. if i = 2 then key_b else key_a),
     hc_tcp_hash = (\<lambda>k. if eport k = 40001 then 7 else 3)\<rparr>"

definition tc_two :: "flow_sidx list" where
  "tc_two = [tc_none, tc_none, FLOW_SIDX 2 TAPSIDE, FLOW_SIDX 0 TAPSIDE, tc_none]"

text \<open>
  Two properties of the buckets that the scan of \<^verbatim>\<open>tcp_hash_remove()\<close> visits, going
  from bucket \<open>s\<close> downwards (modulo the table size) for at most \<open>n\<close> buckets.
  \<open>scan_stops hc tc s q n\<close>: the walk meets an empty bucket before it comes to
  bucket \<open>q\<close>. \<open>cluster_fixed hc tc b s n\<close>: every entry the walk meets before the
  first empty bucket has its ideal bucket (its hash modulo the table size) in the
  cyclic range from its own bucket (included) to \<open>b\<close> (excluded), which is the test
  \<^verbatim>\<open>mod_between(h, s, b, TCP_HASH_TABLE_SIZE)\<close> under which \<^verbatim>\<open>tcp_hash_remove()\<close>
  leaves an entry where it is when bucket \<open>b\<close> becomes free.
\<close>

fun scan_stops :: "hash_ctx \<Rightarrow> flow_sidx list \<Rightarrow> nat \<Rightarrow> nat \<Rightarrow> nat \<Rightarrow> bool" where
  "scan_stops hc tc s q 0 = False"
| "scan_stops hc tc s q (Suc n) =
     (s \<noteq> q \<and>
      (flow_at_sidx (hc_flow_max hc) (tc ! s) = None \<or>
       scan_stops hc tc (mod_sub s 1 (TCP_HASH_TABLE_SIZE (hc_flow_max hc))) q n))"

fun cluster_fixed :: "hash_ctx \<Rightarrow> flow_sidx list \<Rightarrow> nat \<Rightarrow> nat \<Rightarrow> nat \<Rightarrow> bool" where
  "cluster_fixed hc tc b s 0 = True"
| "cluster_fixed hc tc b s (Suc n) =
     (case flow_at_sidx (hc_flow_max hc) (tc ! s) of
        None \<Rightarrow> True
      | Some f \<Rightarrow>
          mod_between (unat (tcp_conn_hash hc f) mod TCP_HASH_TABLE_SIZE (hc_flow_max hc)) s b
            (TCP_HASH_TABLE_SIZE (hc_flow_max hc))
          \<and> cluster_fixed hc tc b (mod_sub s 1 (TCP_HASH_TABLE_SIZE (hc_flow_max hc))) n)"

subsection \<open>Flow table (flow.c)\<close>

text \<open>
  \<^verbatim>\<open>enum flow_type\<close>, in the order of \<^verbatim>\<open>flow_type_str[]\<close>; \<^verbatim>\<open>FLOW_TYPE_NONE\<close> is 0.
\<close>

datatype flow_type = FLOW_TYPE_NONE | FLOW_TCP | FLOW_TCP_SPLICE | FLOW_PING4 | FLOW_PING6

text \<open>
  Modelled from the spec: \<^verbatim>\<open>union flow\<close> is declared in a header that is not in the sources
  at hand. The spec: each slot is a tagged union of variants; a run of consecutive free
  slots forms a free cluster whose first slot stores \<open>(n, next)\<close>. An entry has the type
  tag (\<^verbatim>\<open>f.type\<close>) and, sharing storage with the flow type specific fields, the free
  cluster metadata \<^verbatim>\<open>free.n\<close> and \<^verbatim>\<open>free.next\<close> (\<^verbatim>\<open>unsigned\<close>).
\<close>

record flow_entry =
  ftype :: flow_type
  free_n :: nat
  free_next :: nat

text \<open>
  The globals \<^verbatim>\<open>union flow flowtab[FLOW_MAX]\<close> and \<^verbatim>\<open>unsigned flow_first_free\<close>.
  \<^verbatim>\<open>FLOW_MAX\<close> (defined in another header) is the number of entries of the table.
\<close>

record flow_state =
  flowtab :: "flow_entry list"
  flow_first_free :: nat

definition FLOW_MAX :: "flow_state \<Rightarrow> nat" where
  "FLOW_MAX s = length (flowtab s)"

text \<open>Arithmetic on \<^verbatim>\<open>unsigned\<close> wraps at \<open>2 ^ 32\<close>.\<close>

definition uwrap :: "nat \<Rightarrow> nat" where
  "uwrap x = x mod 2 ^ 32"

text \<open>
  \<^verbatim>\<open>ASSERT()\<close> is defined in a header that is not in the sources at hand; a failed
  assertion is taken to end the program, and is the error value of the functions below.
\<close>

datatype assert_fail = Assert_fail

text \<open>
  The static storage before \<^verbatim>\<open>flow_init()\<close>: every entry zero (\<^verbatim>\<open>flow_zero\<close>, also what
  \<^verbatim>\<open>memset(flow, 0, sizeof(*flow))\<close> leaves), \<^verbatim>\<open>flow_first_free\<close> zero.
\<close>

definition flow_zero :: flow_entry where
  "flow_zero = \<lparr>ftype = FLOW_TYPE_NONE, free_n = 0, free_next = 0\<rparr>"

definition flow_static :: "nat \<Rightarrow> flow_state" where
  "flow_static n = \<lparr>flowtab = replicate n flow_zero, flow_first_free = 0\<rparr>"

text \<open>\<^verbatim>\<open>flow_start()\<close>: set flow type for new flow. \<open>idx\<close> is \<^verbatim>\<open>FLOW_IDX(flow)\<close>.\<close>

definition flow_start :: "nat \<Rightarrow> flow_type \<Rightarrow> flow_state \<Rightarrow> flow_state" where
  "flow_start idx t s = s\<lparr>flowtab := (flowtab s)[idx := (flowtab s ! idx)\<lparr>ftype := t\<rparr>]\<rparr>"

text \<open>\<^verbatim>\<open>flow_end()\<close>: clear flow type for finished flow.\<close>

definition flow_end :: "nat \<Rightarrow> flow_state \<Rightarrow> flow_state" where
  "flow_end idx s =
    (if ftype (flowtab s ! idx) = FLOW_TYPE_NONE then s
     else s\<lparr>flowtab := (flowtab s)[idx := (flowtab s ! idx)\<lparr>ftype := FLOW_TYPE_NONE\<rparr>]\<rparr>)"

text \<open>
  \<^verbatim>\<open>flow_alloc()\<close>: allocate a new flow. Returns the index of an unused entry, or \<open>None\<close>
  (\<^verbatim>\<open>NULL\<close>) if the table is full.
\<close>

definition flow_alloc :: "flow_state \<Rightarrow> assert_fail + (nat option \<times> flow_state)" where
  "flow_alloc s =
    (let ff = flow_first_free s; tab = flowtab s in
     if ff \<ge> FLOW_MAX s then Inr (None, s)
     else
       let fl = tab ! ff in
       if ftype fl \<noteq> FLOW_TYPE_NONE then Inl Assert_fail
       else if \<not> free_n fl \<ge> 1 then Inl Assert_fail
       else if \<not> uwrap (ff + free_n fl) \<le> FLOW_MAX s then Inl Assert_fail
       else if free_n fl > 1 then
         (if \<not> ff \<le> FLOW_MAX s - 2 then Inl Assert_fail
          else
            let ff' = uwrap (ff + 1) in
            if \<not> ff' < FLOW_MAX s then Inl Assert_fail
            else
              let nxt = tab ! ff' in
              if ftype nxt \<noteq> FLOW_TYPE_NONE then Inl Assert_fail
              else if free_n nxt \<noteq> 0 then Inl Assert_fail
              else
                let tab1 = tab[ff' := nxt\<lparr>free_n := free_n fl - 1, free_next := free_next fl\<rparr>]
                in Inr (Some ff, \<lparr>flowtab = tab1[ff := flow_zero], flow_first_free = ff'\<rparr>))
       else Inr (Some ff, \<lparr>flowtab = tab[ff := flow_zero], flow_first_free = free_next fl\<rparr>))"

text \<open>\<^verbatim>\<open>flow_alloc_cancel()\<close>: free a newly allocated flow.\<close>

definition flow_alloc_cancel :: "nat \<Rightarrow> flow_state \<Rightarrow> assert_fail + flow_state" where
  "flow_alloc_cancel idx s =
    (if \<not> flow_first_free s > idx then Inl Assert_fail
     else
       let s1 = flow_end idx s;
           tab = flowtab s1
       in Inr \<lparr>flowtab = tab[idx := (tab ! idx)\<lparr>free_n := 1, free_next := flow_first_free s1\<rparr>],
               flow_first_free = idx\<rparr>)"

text \<open>
  What \<^verbatim>\<open>flow_defer_handler()\<close> gets from outside: whether the flow timers are due
  (\<^verbatim>\<open>timespec_diff_ms(now, &flow_timer_run) >= FLOW_TIMER_INTERVAL\<close>), and the answers of
  the flow type specific handlers for the entry at an index.
\<close>

record flow_env =
  fe_timer :: bool
  tcp_flow_defer :: "nat \<Rightarrow> bool"
  tcp_splice_flow_defer :: "nat \<Rightarrow> bool"
  icmp_ping_timer :: "nat \<Rightarrow> bool"

text \<open>
  The \<^verbatim>\<open>switch (flow->f.type)\<close> of \<^verbatim>\<open>flow_defer_handler()\<close>, which sets \<^verbatim>\<open>closed\<close>. The
  case \<^verbatim>\<open>FLOW_TYPE_NONE\<close> is not reached: the loop handles this type before the switch.
  \<^verbatim>\<open>tcp_splice_timer()\<close> only touches the fields of its flow and is left out.
\<close>

definition flow_closed :: "flow_env \<Rightarrow> flow_type \<Rightarrow> nat \<Rightarrow> bool" where
  "flow_closed e t idx =
    (case t of
       FLOW_TYPE_NONE \<Rightarrow> False
     | FLOW_TCP \<Rightarrow> tcp_flow_defer e idx
     | FLOW_TCP_SPLICE \<Rightarrow> tcp_splice_flow_defer e idx
     | FLOW_PING4 \<Rightarrow> fe_timer e \<and> icmp_ping_timer e idx
     | FLOW_PING6 \<Rightarrow> fe_timer e \<and> icmp_ping_timer e idx)"

text \<open>
  Stores of the loop: \<^verbatim>\<open>*last_next = v\<close>, where \<open>last_next\<close> is \<open>None\<close> for
  \<^verbatim>\<open>&flow_first_free\<close> and \<open>Some h\<close> for \<^verbatim>\<open>&flowtab[h].free.next\<close>;
  \<^verbatim>\<open>flowtab[h].free.n = v\<close>; and \<^verbatim>\<open>flow->free.n = flow->free.next = 0\<close>.
\<close>

definition set_next :: "nat option \<Rightarrow> nat \<Rightarrow> flow_state \<Rightarrow> flow_state" where
  "set_next last_next v s =
    (case last_next of
       None \<Rightarrow> s\<lparr>flow_first_free := v\<rparr>
     | Some h \<Rightarrow> s\<lparr>flowtab := (flowtab s)[h := (flowtab s ! h)\<lparr>free_next := v\<rparr>]\<rparr>)"

definition set_n :: "nat \<Rightarrow> nat \<Rightarrow> flow_state \<Rightarrow> flow_state" where
  "set_n h v s = s\<lparr>flowtab := (flowtab s)[h := (flowtab s ! h)\<lparr>free_n := v\<rparr>]\<rparr>"

definition clear_free :: "nat \<Rightarrow> flow_state \<Rightarrow> flow_state" where
  "clear_free idx s = s\<lparr>flowtab := (flowtab s)[idx := (flowtab s ! idx)\<lparr>free_n := 0, free_next := 0\<rparr>]\<rparr>"

text \<open>
  The \<^verbatim>\<open>for (idx = 0; idx < FLOW_MAX; idx++)\<close> loop of \<^verbatim>\<open>flow_defer_handler()\<close>, with
  \<^verbatim>\<open>*last_next = FLOW_MAX\<close> at its end. \<open>free_head\<close> is \<open>None\<close> for \<^verbatim>\<open>NULL\<close> and
  \<open>Some h\<close> for \<^verbatim>\<open>&flowtab[h].free\<close>. The index advances by \<^verbatim>\<open>skip\<close>, a value read from the
  table, so the loop is a partial function: \<open>None\<close> stands for a loop that does not end.
\<close>

partial_function (option) flow_defer_loop ::
  "flow_env \<Rightarrow> nat option \<Rightarrow> nat option \<Rightarrow> nat \<Rightarrow> flow_state \<Rightarrow> (assert_fail + flow_state) option"
where
  "flow_defer_loop e free_head last_next idx s =
    (if \<not> idx < FLOW_MAX s then Some (Inr (set_next last_next (FLOW_MAX s) s))
     else
       let fl = flowtab s ! idx in
       if ftype fl = FLOW_TYPE_NONE then
         (let skip = free_n fl in
          if skip = 0 then Some (Inl Assert_fail)
          else
            (case free_head of
               Some h \<Rightarrow>
                 flow_defer_loop e free_head last_next (uwrap (uwrap (idx + (skip - 1)) + 1))
                   (clear_free idx (set_n h (uwrap (free_n (flowtab s ! h) + free_n fl)) s))
             | None \<Rightarrow>
                 flow_defer_loop e (Some idx) (Some idx) (uwrap (uwrap (idx + (skip - 1)) + 1))
                   (set_next last_next idx s)))
       else if flow_closed e (ftype fl) idx then
         (let s1 = flow_end idx s in
          case free_head of
            Some h \<Rightarrow>
              if idx \<noteq> uwrap (h + free_n (flowtab s1 ! h)) then Some (Inl Assert_fail)
              else
                flow_defer_loop e free_head last_next (uwrap (idx + 1))
                  (clear_free idx (set_n h (uwrap (free_n (flowtab s1 ! h) + 1)) s1))
          | None \<Rightarrow>
              flow_defer_loop e (Some idx) (Some idx) (uwrap (idx + 1))
                (set_next last_next idx (set_n idx 1 s1)))
       else flow_defer_loop e None last_next (uwrap (idx + 1)) s)"

declare flow_defer_loop.simps [code]

text \<open>\<^verbatim>\<open>flow_defer_handler()\<close>: handler for per-flow deferred and timed tasks.\<close>

definition flow_defer_handler :: "flow_env \<Rightarrow> flow_state \<Rightarrow> (assert_fail + flow_state) option" where
  "flow_defer_handler e s = flow_defer_loop e None None 0 s"

text \<open>\<^verbatim>\<open>flow_init()\<close>: initialise flow related data structures.\<close>

definition flow_init :: "flow_state \<Rightarrow> flow_state" where
  "flow_init s =
    s\<lparr>flowtab := (flowtab s)[0 := (flowtab s ! 0)\<lparr>free_n := FLOW_MAX s, free_next := FLOW_MAX s\<rparr>]\<rparr>"

text \<open>
  Flow type specific code writes the fields of an entry that holds a flow; in
  \<^verbatim>\<open>union flow\<close> they share storage with \<^verbatim>\<open>free.n\<close> and \<^verbatim>\<open>free.next\<close>.
\<close>

definition flow_write :: "nat \<Rightarrow> nat \<Rightarrow> nat \<Rightarrow> flow_state \<Rightarrow> flow_state" where
  "flow_write idx a b s =
    (if idx < FLOW_MAX s \<and> ftype (flowtab s ! idx) \<noteq> FLOW_TYPE_NONE
     then s\<lparr>flowtab := (flowtab s)[idx := (flowtab s ! idx)\<lparr>free_n := a, free_next := b\<rparr>]\<rparr>
     else s)"

text \<open>
  The operations of the flow entry life cycle ("Theory of Operation - flow entry life
  cycle"), as their callers perform them: \<^verbatim>\<open>flow_alloc()\<close> followed by \<^verbatim>\<open>FLOW_START()\<close>;
  \<^verbatim>\<open>flow_alloc()\<close> followed by \<^verbatim>\<open>flow_alloc_cancel()\<close> of the entry just allocated,
  directly (\<open>Op_cancel\<close>) or after \<^verbatim>\<open>FLOW_START()\<close> (\<open>Op_start_cancel\<close>); a write of flow
  type specific fields; \<^verbatim>\<open>flow_defer_handler()\<close>. When the table is full \<^verbatim>\<open>flow_alloc()\<close>
  returns \<^verbatim>\<open>NULL\<close> and the caller gives up.
\<close>

datatype flow_op =
    Op_new flow_type
  | Op_cancel
  | Op_start_cancel flow_type
  | Op_write nat nat nat
  | Op_defer flow_env

fun flow_op_step :: "flow_op \<Rightarrow> flow_state \<Rightarrow> (assert_fail + flow_state) option" where
  "flow_op_step (Op_new t) s =
    (case flow_alloc s of
       Inl a \<Rightarrow> Some (Inl a)
     | Inr (None, s') \<Rightarrow> Some (Inr s')
     | Inr (Some idx, s') \<Rightarrow> Some (Inr (flow_start idx t s')))"
| "flow_op_step Op_cancel s =
    (case flow_alloc s of
       Inl a \<Rightarrow> Some (Inl a)
     | Inr (None, s') \<Rightarrow> Some (Inr s')
     | Inr (Some idx, s') \<Rightarrow> Some (flow_alloc_cancel idx s'))"
| "flow_op_step (Op_start_cancel t) s =
    (case flow_alloc s of
       Inl a \<Rightarrow> Some (Inl a)
     | Inr (None, s') \<Rightarrow> Some (Inr s')
     | Inr (Some idx, s') \<Rightarrow> Some (flow_alloc_cancel idx (flow_start idx t s')))"
| "flow_op_step (Op_write idx a b) s = Some (Inr (flow_write idx a b s))"
| "flow_op_step (Op_defer e) s = flow_defer_handler e s"

fun flow_run :: "flow_op list \<Rightarrow> flow_state \<Rightarrow> (assert_fail + flow_state) option" where
  "flow_run [] s = Some (Inr s)"
| "flow_run (x # xs) s =
    (case flow_op_step x s of
       Some (Inr s') \<Rightarrow> flow_run xs s'
     | r \<Rightarrow> r)"

fun op_types_ok :: "flow_op \<Rightarrow> bool" where
  "op_types_ok (Op_new t) = (t \<noteq> FLOW_TYPE_NONE)"
| "op_types_ok (Op_start_cancel t) = (t \<noteq> FLOW_TYPE_NONE)"
| "op_types_ok _ = True"

text \<open>
  The property of the free list, in the words of the claim. \<open>free_chain\<close> follows
  \<^verbatim>\<open>free.next\<close> from an index and returns the indices it visits when they strictly
  increase and end at \<^verbatim>\<open>FLOW_MAX\<close>. \<open>free_list_ok\<close>: the list headed at
  \<^verbatim>\<open>flow_first_free\<close> is such a chain, every cluster head has type \<^verbatim>\<open>FLOW_TYPE_NONE\<close>,
  \<open>n \<ge> 1\<close> and \<open>idx + n \<le> FLOW_MAX\<close>, and the lengths of the clusters (\<open>free_total\<close>)
  plus the number of entries whose type is not \<^verbatim>\<open>FLOW_TYPE_NONE\<close> (\<open>flow_active\<close>) is
  \<^verbatim>\<open>FLOW_MAX\<close>.
\<close>

function free_chain :: "flow_entry list \<Rightarrow> nat \<Rightarrow> nat list option" where
  "free_chain tab i =
    (if i \<ge> length tab then (if i = length tab then Some [] else None)
     else if free_next (tab ! i) \<le> i then None
     else map_option (Cons i) (free_chain tab (free_next (tab ! i))))"
  by pat_completeness auto
termination
  by (relation "measure (\<lambda>(tab, i). length tab - i)") auto

declare free_chain.simps [simp del]

definition flow_active :: "flow_state \<Rightarrow> nat" where
  "flow_active s = length (filter (\<lambda>fl. ftype fl \<noteq> FLOW_TYPE_NONE) (flowtab s))"

definition free_total :: "flow_state \<Rightarrow> nat list \<Rightarrow> nat" where
  "free_total s hs = sum_list (map (\<lambda>h. free_n (flowtab s ! h)) hs)"

definition free_list_ok :: "flow_state \<Rightarrow> bool" where
  "free_list_ok s =
    (case free_chain (flowtab s) (flow_first_free s) of
       None \<Rightarrow> False
     | Some hs \<Rightarrow>
         sorted_wrt (<) hs \<and>
         (\<forall>h \<in> set hs. ftype (flowtab s ! h) = FLOW_TYPE_NONE \<and> 1 \<le> free_n (flowtab s ! h) \<and>
                        h + free_n (flowtab s ! h) \<le> FLOW_MAX s) \<and>
         free_total s hs + flow_active s = FLOW_MAX s)"

text \<open>
  A table of four entries right after \<^verbatim>\<open>flow_init()\<close> and one \<^verbatim>\<open>flow_alloc()\<close>; and a
  sequence of operations on such a table with the state it ends in.
\<close>

definition flow_tentative :: flow_state where
  "flow_tentative =
    \<lparr>flowtab = [flow_zero, \<lparr>ftype = FLOW_TYPE_NONE, free_n = 3, free_next = 4\<rparr>,
                flow_zero, flow_zero],
     flow_first_free = 1\<rparr>"

definition flow_env_example :: flow_env where
  "flow_env_example =
    \<lparr>fe_timer = True, tcp_flow_defer = (\<lambda>i. i = 1), tcp_splice_flow_defer = (\<lambda>i. False),
     icmp_ping_timer = (\<lambda>i. False)\<rparr>"

definition flow_ops_example :: "flow_op list" where
  "flow_ops_example =
    [Op_new FLOW_TCP, Op_new FLOW_TCP, Op_new FLOW_PING4, Op_start_cancel FLOW_TCP_SPLICE,
     Op_cancel, Op_write 0 7 9, Op_defer flow_env_example]"

definition flow_example_final :: flow_state where
  "flow_example_final =
    \<lparr>flowtab = [\<lparr>ftype = FLOW_TCP, free_n = 7, free_next = 9\<rparr>,
                \<lparr>ftype = FLOW_TYPE_NONE, free_n = 1, free_next = 3\<rparr>,
                \<lparr>ftype = FLOW_PING4, free_n = 0, free_next = 0\<rparr>,
                \<lparr>ftype = FLOW_TYPE_NONE, free_n = 1, free_next = 4\<rparr>],
     flow_first_free = 1\<rparr>"

text \<open>
  The invariant of the table. \<open>is_head\<close>: the entry is the first of a free cluster.
  \<open>clusters_ok\<close>: every cluster lies in the table, its other entries are unused with
  \<open>n = 0\<close>, and every unused entry with \<open>n = 0\<close> lies in a cluster. \<open>chain_ok\<close>:
  \<^verbatim>\<open>flow_first_free\<close> is the first cluster head (or \<^verbatim>\<open>FLOW_MAX\<close>), and \<^verbatim>\<open>free.next\<close> of
  every head is the next head (or \<^verbatim>\<open>FLOW_MAX\<close>).
\<close>

definition is_head :: "flow_entry list \<Rightarrow> nat \<Rightarrow> bool" where
  "is_head tab j \<longleftrightarrow> j < length tab \<and> ftype (tab ! j) = FLOW_TYPE_NONE \<and> 1 \<le> free_n (tab ! j)"

definition clusters_ok :: "flow_entry list \<Rightarrow> bool" where
  "clusters_ok tab \<longleftrightarrow>
     (\<forall>h. is_head tab h \<longrightarrow>
        h + free_n (tab ! h) \<le> length tab \<and>
        (\<forall>j. h < j \<and> j < h + free_n (tab ! h) \<longrightarrow>
           ftype (tab ! j) = FLOW_TYPE_NONE \<and> free_n (tab ! j) = 0)) \<and>
     (\<forall>j < length tab. ftype (tab ! j) = FLOW_TYPE_NONE \<and> free_n (tab ! j) = 0 \<longrightarrow>
        (\<exists>h<j. is_head tab h \<and> j < h + free_n (tab ! h)))"

definition chain_ok :: "flow_entry list \<Rightarrow> nat \<Rightarrow> bool" where
  "chain_ok tab ff \<longleftrightarrow>
     ff \<le> length tab \<and> (\<forall>j<ff. \<not> is_head tab j) \<and> (ff < length tab \<longrightarrow> is_head tab ff) \<and>
     (\<forall>h. is_head tab h \<longrightarrow>
        h < free_next (tab ! h) \<and> free_next (tab ! h) \<le> length tab \<and>
        (\<forall>j. h < j \<and> j < free_next (tab ! h) \<longrightarrow> \<not> is_head tab j) \<and>
        (free_next (tab ! h) < length tab \<longrightarrow> is_head tab (free_next (tab ! h))))"

definition flow_inv :: "flow_state \<Rightarrow> bool" where
  "flow_inv s \<longleftrightarrow>
     length (flowtab s) < 2 ^ 32 \<and> clusters_ok (flowtab s) \<and>
     chain_ok (flowtab s) (flow_first_free s)"

text \<open>
  The invariant of the loop of \<^verbatim>\<open>flow_defer_handler()\<close> at index \<open>idx\<close>: clusters that
  start below \<open>idx\<close> end at or below \<open>idx\<close> (\<open>pre_bound\<close>); \<open>last_next\<close> points into the
  last head below \<open>idx\<close>, or is \<^verbatim>\<open>&flow_first_free\<close> when there is none (\<open>pre_last\<close>);
  the other heads below \<open>idx\<close> are linked to the next head (\<open>pre_links\<close>); and
  \<open>free_head\<close>, when set, is that last head and its cluster ends at \<open>idx\<close> (\<open>pre_head\<close>).
\<close>

definition pre_bound :: "flow_entry list \<Rightarrow> nat \<Rightarrow> bool" where
  "pre_bound tab idx \<longleftrightarrow> (\<forall>h<idx. is_head tab h \<longrightarrow> h + free_n (tab ! h) \<le> idx)"

definition pre_last :: "flow_entry list \<Rightarrow> nat \<Rightarrow> nat option \<Rightarrow> nat \<Rightarrow> bool" where
  "pre_last tab ff ln idx \<longleftrightarrow>
     (case ln of
        None \<Rightarrow> (\<forall>j<idx. \<not> is_head tab j)
      | Some l \<Rightarrow> l < idx \<and> is_head tab l \<and> (\<forall>j. l < j \<and> j < idx \<longrightarrow> \<not> is_head tab j) \<and>
          ff \<le> l \<and> is_head tab ff \<and> (\<forall>j<ff. \<not> is_head tab j))"

definition pre_links :: "flow_entry list \<Rightarrow> nat option \<Rightarrow> nat \<Rightarrow> bool" where
  "pre_links tab ln idx \<longleftrightarrow>
     (\<forall>h<idx. is_head tab h \<and> ln \<noteq> Some h \<longrightarrow>
        h < free_next (tab ! h) \<and> free_next (tab ! h) < idx \<and>
        is_head tab (free_next (tab ! h)) \<and>
        (\<forall>j. h < j \<and> j < free_next (tab ! h) \<longrightarrow> \<not> is_head tab j))"

definition pre_head :: "flow_entry list \<Rightarrow> nat option \<Rightarrow> nat option \<Rightarrow> nat \<Rightarrow> bool" where
  "pre_head tab fh ln idx \<longleftrightarrow>
     (case fh of None \<Rightarrow> True
      | Some h \<Rightarrow> ln = Some h \<and> h < idx \<and> h + free_n (tab ! h) = idx)"

definition defer_inv :: "nat option \<Rightarrow> nat option \<Rightarrow> nat \<Rightarrow> flow_state \<Rightarrow> bool" where
  "defer_inv fh ln idx s \<longleftrightarrow>
     length (flowtab s) < 2 ^ 32 \<and> idx \<le> length (flowtab s) \<and> clusters_ok (flowtab s) \<and>
     pre_bound (flowtab s) idx \<and> pre_last (flowtab s) (flow_first_free s) ln idx \<and>
     pre_links (flowtab s) ln idx \<and> pre_head (flowtab s) fh ln idx"

section \<open>Sequence comparison over the window\<close>

lemma MAX_WINDOW_val: "MAX_WINDOW = 16777216"
  by (simp add: MAX_WINDOW_def MAX_WS_def)

lemma uint_word_of_int_32: "uint (word_of_int d :: u32) = d mod 4294967296"
  by (simp add: uint_word_of_int take_bit_eq_mod)

lemma mod_2p32_negative:
  "- 4294967296 \<le> d \<Longrightarrow> d < 0 \<Longrightarrow> d mod 4294967296 = d + (4294967296::int)"
  by (smt (verit) mod_add_self2 mod_pos_pos_trivial)

lemma offset_less_window:
  assumes "- 4278190080 < d" and "d < 16777216"
  shows "((word_of_int d :: u32) < 16777216) = (0 \<le> d)"
proof (cases "0 \<le> d")
  case True
  with assms have "d mod 4294967296 = d" by simp
  with True assms show ?thesis by (simp add: word_less_alt uint_word_of_int_32)
next
  case False
  with assms have "d mod 4294967296 = d + 4294967296"
    by (simp add: mod_2p32_negative)
  with False assms show ?thesis by (simp add: word_less_alt uint_word_of_int_32)
qed

lemma SEQ_LE_offset:
  assumes "- 16777216 < d" and "d < 16777216"
  shows "SEQ_LE a (a + word_of_int d) = (0 \<le> d)"
  using offset_less_window [of d] assms by (simp add: SEQ_LE_def MAX_WINDOW_val)

lemma SEQ_LT_offset:
  assumes "- 16777216 < d" and "d < 16777216"
  shows "SEQ_LT a (a + word_of_int d) = (0 < d)"
proof -
  have "a + word_of_int d - a - 1 = (word_of_int (d - 1) :: u32)" by simp
  then show ?thesis
    using offset_less_window [of "d - 1"] assms by (simp add: SEQ_LT_def MAX_WINDOW_val)
qed

lemma SEQ_GE_offset:
  assumes "- 16777216 < d" and "d < 16777216"
  shows "SEQ_GE a (a + word_of_int d) = (d \<le> 0)"
proof -
  have "a - (a + word_of_int d) = (word_of_int (- d) :: u32)" by simp
  then show ?thesis
    using offset_less_window [of "- d"] assms by (simp add: SEQ_GE_def MAX_WINDOW_val)
qed

lemma SEQ_GT_offset:
  assumes "- 16777216 < d" and "d < 16777216"
  shows "SEQ_GT a (a + word_of_int d) = (d < 0)"
proof -
  have "a - (a + word_of_int d) - 1 = (word_of_int (- d - 1) :: u32)" by simp
  then show ?thesis
    using offset_less_window [of "- d - 1"] assms by (simp add: SEQ_GT_def MAX_WINDOW_val)
qed

text \<open>
  C3, as stated: the macros agree with integer comparison whenever the two sequence
  numbers differ by less than \<open>2 ^ 31\<close>. This fails: \<open>0\<close> and \<open>2 ^ 24\<close> differ by
  \<open>2 ^ 24 < 2 ^ 31\<close> and \<open>0 \<le> 2 ^ 24\<close>, yet \<^verbatim>\<open>SEQ_LE(0, 1 << 24)\<close> is false,
  because the macros compare the wrapped difference with \<^verbatim>\<open>MAX_WINDOW\<close> \<open>= 2 ^ 24\<close>.
\<close>

theorem C3_seq_window_counterexample:
  "\<bar>uint (16777216 :: u32) - uint (0 :: u32)\<bar> < 2 ^ 31
   \<and> uint (0 :: u32) \<le> uint (16777216 :: u32)
   \<and> \<not> SEQ_LE 0 16777216"
  by (simp add: SEQ_LE_def MAX_WINDOW_val)

text \<open>
  C3, amended: for every 32-bit sequence number \<open>a\<close> and every integer offset \<open>d\<close> with
  \<open>\<bar>d\<bar> < 2 ^ 24\<close> (\<^verbatim>\<open>MAX_WINDOW\<close>), comparing \<open>a\<close> with \<open>a + d\<close> (wrapped modulo
  \<open>2 ^ 32\<close>) by \<^verbatim>\<open>SEQ_LT\<close>, \<^verbatim>\<open>SEQ_LE\<close>, \<^verbatim>\<open>SEQ_GE\<close>, \<^verbatim>\<open>SEQ_GT\<close> gives the result of
  comparing \<open>0\<close> with \<open>d\<close> as integers; this includes pairs that straddle the wrap at
  \<open>2 ^ 32\<close>.
\<close>

theorem C3_seq_window:
  fixes a :: u32 and d :: int
  assumes "\<bar>d\<bar> < 2 ^ 24"
  shows "SEQ_LT a (a + word_of_int d) = (0 < d)
       \<and> SEQ_LE a (a + word_of_int d) = (0 \<le> d)
       \<and> SEQ_GE a (a + word_of_int d) = (d \<le> 0)
       \<and> SEQ_GT a (a + word_of_int d) = (d < 0)"
proof -
  from assms have lo: "- 16777216 < d" and hi: "d < 16777216" by simp_all
  show ?thesis
    by (simp only: SEQ_LT_offset [OF lo hi] SEQ_LE_offset [OF lo hi]
        SEQ_GE_offset [OF lo hi] SEQ_GT_offset [OF lo hi])
qed

theorem C3_seq_window_witness:
  "\<bar>32 :: int\<bar> < 2 ^ 24
   \<and> SEQ_LT (4294967280 :: u32) (4294967280 + word_of_int 32)
   \<and> SEQ_LE (4294967280 :: u32) (4294967280 + word_of_int 32)
   \<and> \<not> SEQ_GE (4294967280 :: u32) (4294967280 + word_of_int 32)
   \<and> \<not> SEQ_GT (4294967280 :: u32) (4294967280 + word_of_int 32)
   \<and> (4294967280 :: u32) + word_of_int 32 = 16"
  using C3_seq_window [of 32 4294967280] by simp

section \<open>Epoll mask of a connection\<close>

lemma epoll_events_fin_sent:
  "evs AND ESTABLISHED \<noteq> 0 \<Longrightarrow> evs AND TAP_FIN_SENT \<noteq> 0 \<Longrightarrow>
   tcp_conn_epoll_events evs fl = EPOLLET"
  by (auto simp: tcp_conn_epoll_events_def)

lemma epoll_events_stalled:
  "evs AND ESTABLISHED \<noteq> 0 \<Longrightarrow> evs AND TAP_FIN_SENT = 0 \<Longrightarrow> fl AND STALLED \<noteq> 0 \<Longrightarrow>
   tcp_conn_epoll_events evs fl = EPOLLIN OR EPOLLOUT OR EPOLLRDHUP OR EPOLLET"
  by (auto simp: tcp_conn_epoll_events_def)

lemma tcp_epoll_ctl_first_call:
  assumes "events conn \<noteq> CLOSED"
  shows "hd (snd (snd (tcp_epoll_ctl es et conn))) =
         Epoll_ctl (if in_epoll conn then EPOLL_CTL_MOD else EPOLL_CTL_ADD) (sock conn)
           (tcp_conn_epoll_events (events conn) (flags conn))"
  using assms by (simp add: tcp_epoll_ctl_def Let_def)

text \<open>
  C8, as stated: every connection with \<^verbatim>\<open>STALLED\<close> asserted has a mask that includes
  \<^verbatim>\<open>EPOLLIN|EPOLLOUT|EPOLLRDHUP|EPOLLET\<close>. This fails for an established connection
  that has already sent its FIN to the tap: \<^verbatim>\<open>TAP_FIN_SENT\<close> is tested first, and the
  mask registered by \<^verbatim>\<open>tcp_epoll_ctl()\<close> is \<^verbatim>\<open>EPOLLET\<close> alone, \<^verbatim>\<open>STALLED\<close> or not.
\<close>

theorem C8_epoll_mask_counterexample:
  "flags ((new_conn 5)\<lparr>events := ESTABLISHED OR TAP_FIN_SENT, flags := STALLED,
            in_epoll := True\<rparr>) AND STALLED \<noteq> 0
   \<and> snd (snd (tcp_epoll_ctl 0 0
        ((new_conn 5)\<lparr>events := ESTABLISHED OR TAP_FIN_SENT, flags := STALLED,
           in_epoll := True\<rparr>)))
     = [Epoll_ctl EPOLL_CTL_MOD 5 EPOLLET]
   \<and> EPOLLET AND (EPOLLIN OR EPOLLOUT OR EPOLLRDHUP OR EPOLLET)
       \<noteq> EPOLLIN OR EPOLLOUT OR EPOLLRDHUP OR EPOLLET"
  by (simp add: tcp_epoll_ctl_def tcp_conn_epoll_events_def Let_def CLOSED_def new_conn_def
      ESTABLISHED_def TAP_FIN_SENT_def STALLED_def EPOLLIN_def EPOLLOUT_def
      EPOLLRDHUP_def EPOLLET_def)

text \<open>
  C8, amended: for every connection whose events include \<^verbatim>\<open>ESTABLISHED\<close>, the mask
  that \<^verbatim>\<open>tcp_epoll_ctl()\<close> passes to \<^verbatim>\<open>epoll_ctl()\<close> for the connection's socket is
  \<^verbatim>\<open>EPOLLET\<close> alone when \<^verbatim>\<open>TAP_FIN_SENT\<close> is set (whether or not \<^verbatim>\<open>STALLED\<close> is
  asserted), and is exactly \<^verbatim>\<open>EPOLLIN|EPOLLOUT|EPOLLRDHUP|EPOLLET\<close> when \<^verbatim>\<open>STALLED\<close>
  is asserted and \<^verbatim>\<open>TAP_FIN_SENT\<close> is not set.
\<close>

theorem C8_epoll_mask:
  assumes "events conn AND ESTABLISHED \<noteq> 0"
  shows "(events conn AND TAP_FIN_SENT \<noteq> 0 \<longrightarrow>
            hd (snd (snd (tcp_epoll_ctl es et conn))) =
            Epoll_ctl (if in_epoll conn then EPOLL_CTL_MOD else EPOLL_CTL_ADD) (sock conn)
              EPOLLET)
       \<and> (events conn AND TAP_FIN_SENT = 0 \<and> flags conn AND STALLED \<noteq> 0 \<longrightarrow>
            hd (snd (snd (tcp_epoll_ctl es et conn))) =
            Epoll_ctl (if in_epoll conn then EPOLL_CTL_MOD else EPOLL_CTL_ADD) (sock conn)
              (EPOLLIN OR EPOLLOUT OR EPOLLRDHUP OR EPOLLET))"
proof -
  from assms have open_conn: "events conn \<noteq> CLOSED"
    by (auto simp: CLOSED_def)
  show ?thesis
    using assms
    by (simp add: tcp_epoll_ctl_first_call [OF open_conn] epoll_events_fin_sent
        epoll_events_stalled)
qed

theorem C8_epoll_mask_witness:
  "events ((new_conn 5)\<lparr>events := ESTABLISHED, flags := STALLED, in_epoll := True\<rparr>)
     AND ESTABLISHED \<noteq> 0
   \<and> hd (snd (snd (tcp_epoll_ctl 0 0
        ((new_conn 5)\<lparr>events := ESTABLISHED, flags := STALLED, in_epoll := True\<rparr>))))
     = Epoll_ctl EPOLL_CTL_MOD 5 (EPOLLIN OR EPOLLOUT OR EPOLLRDHUP OR EPOLLET)"
  using C8_epoll_mask [of "(new_conn 5)\<lparr>events := ESTABLISHED, flags := STALLED,
      in_epoll := True\<rparr>" 0 0]
  by (simp add: ESTABLISHED_def TAP_FIN_SENT_def STALLED_def new_conn_def)

section \<open>Reverse port map\<close>

lemma rdelta_entry_neg: "(of_nat (NUM_PORTS - unat (d :: u16)) :: u16) = - d"
proof -
  have "unat d < 2 ^ LENGTH(16)" by (rule unsigned_less)
  then have "unat d < 65536" by simp
  then have "(of_nat (65536 - unat d) :: u16) = of_nat 65536 - of_nat (unat d)"
    by (simp add: of_nat_diff)
  then show ?thesis by (simp add: NUM_PORTS_def)
qed

lemma invert_fold_untouched:
  "(\<And>i. i \<in> set xs \<Longrightarrow> fdelta (of_nat i) \<noteq> 0 \<Longrightarrow> of_nat i + fdelta (of_nat i) \<noteq> q) \<Longrightarrow>
   fold (invert_step fdelta) xs r q = r q"
proof (induction xs arbitrary: r)
  case Nil
  then show ?case by simp
next
  case (Cons x xs)
  have "fold (invert_step fdelta) xs (invert_step fdelta x r) q = invert_step fdelta x r q"
    using Cons.prems by (intro Cons.IH) auto
  moreover have "invert_step fdelta x r q = r q"
    using Cons.prems [of x] by (auto simp: invert_step_def Let_def)
  ultimately show ?case by simp
qed

lemma invert_fold_last_writer:
  assumes "i < n" and "fdelta (of_nat i) \<noteq> 0"
    and "\<And>j. i < j \<Longrightarrow> j < n \<Longrightarrow> fdelta (of_nat j) \<noteq> 0 \<Longrightarrow>
          of_nat j + fdelta (of_nat j) \<noteq> of_nat i + fdelta (of_nat i)"
  shows "fold (invert_step fdelta) [0..<n] r (of_nat i + fdelta (of_nat i)) = - fdelta (of_nat i)"
proof -
  have split: "[0..<n] = [0..<i] @ i # [Suc i..<n]"
    using assms(1)
    by (metis le_add1 less_imp_add_positive upt_add_eq_append upt_conv_Cons zero_le add_0)
  let ?r1 = "fold (invert_step fdelta) [0..<i] r"
  let ?r2 = "invert_step fdelta i ?r1"
  have "fold (invert_step fdelta) [0..<n] r = fold (invert_step fdelta) [Suc i..<n] ?r2"
    by (simp add: split)
  moreover have "fold (invert_step fdelta) [Suc i..<n] ?r2 (of_nat i + fdelta (of_nat i))
      = ?r2 (of_nat i + fdelta (of_nat i))"
    by (rule invert_fold_untouched) (use assms(3) in auto)
  moreover have "?r2 (of_nat i + fdelta (of_nat i)) = - fdelta (of_nat i)"
    using assms(2) by (simp add: invert_step_def Let_def rdelta_entry_neg)
  ultimately show ?thesis by simp
qed

lemma port_index_neq: "j < 65536 \<Longrightarrow> j \<noteq> unat (p :: u16) \<Longrightarrow> (of_nat j :: u16) \<noteq> p"
proof
  assume "j < 65536" and "j \<noteq> unat p" and "(of_nat j :: u16) = p"
  then have "unat (of_nat j :: u16) = unat p" by simp
  moreover have "unat (of_nat j :: u16) = j"
    using \<open>j < 65536\<close> by (simp add: unat_of_nat)
  ultimately show False using \<open>j \<noteq> unat p\<close> by simp
qed

text \<open>
  C7, as stated: for every forwarded port \<open>p\<close>,
  \<open>rdelta[p + delta[p]] = (65536 - delta[p]) mod 65536\<close>. This fails when two ports are
  forwarded to the same port: with \<^verbatim>\<open>-u 10:12,11:12\<close> (\<open>delta[10] = 2\<close>,
  \<open>delta[11] = 1\<close>) the loop writes \<open>rdelta[12]\<close> twice and the later write, for port
  11, stays: \<open>rdelta[12] = 65535\<close>, not \<open>65534\<close>.
\<close>

theorem C7_invert_portmap_counterexample:
  "fwd_two_to_one 10 = 2
   \<and> udp_invert_portmap fwd_two_to_one (\<lambda>_. 0) (10 + fwd_two_to_one 10) = 65535
   \<and> unat (udp_invert_portmap fwd_two_to_one (\<lambda>_. 0) (10 + fwd_two_to_one 10))
       \<noteq> (65536 - unat (fwd_two_to_one 10)) mod 65536"
proof -
  have "fold (invert_step fwd_two_to_one) [0..<NUM_PORTS] (\<lambda>_. 0)
          (of_nat 11 + fwd_two_to_one (of_nat 11)) = - fwd_two_to_one (of_nat 11)"
  proof (rule invert_fold_last_writer)
    show "11 < NUM_PORTS" by (simp add: NUM_PORTS_def)
    show "fwd_two_to_one (of_nat 11) \<noteq> 0" by (simp add: fwd_two_to_one_def)
  next
    fix j :: nat
    assume "11 < j" and "j < NUM_PORTS" and nz: "fwd_two_to_one (of_nat j) \<noteq> 0"
    then have "(of_nat j :: u16) \<noteq> 10 \<and> (of_nat j :: u16) \<noteq> 11"
      using port_index_neq [of j 10] port_index_neq [of j 11] by (simp add: NUM_PORTS_def)
    with nz show "of_nat j + fwd_two_to_one (of_nat j) \<noteq> of_nat 11 + fwd_two_to_one (of_nat 11)"
      by (simp add: fwd_two_to_one_def)
  qed
  then have "udp_invert_portmap fwd_two_to_one (\<lambda>_. 0) 12 = 65535"
    by (simp add: udp_invert_portmap_def fwd_two_to_one_def)
  then show ?thesis by (simp add: fwd_two_to_one_def)
qed

text \<open>
  C7, amended: after \<^verbatim>\<open>udp_invert_portmap()\<close> has run on a reverse map that was zero
  where no delta is configured, for every port \<open>p\<close> such that no other port with a
  non-zero delta is forwarded to the same port as \<open>p\<close>, it holds that
  \<open>rdelta[p + delta[p]] = (65536 - delta[p]) mod 65536\<close>, and adjusting \<open>p\<close> by
  \<open>delta\<close> and the result by \<open>rdelta\<close> gives \<open>p\<close> again (modulo \<open>65536\<close>).
\<close>

theorem C7_invert_portmap:
  fixes p :: u16
  assumes inj: "\<And>q. q \<noteq> p \<Longrightarrow> fdelta q \<noteq> 0 \<Longrightarrow> q + fdelta q \<noteq> p + fdelta p"
    and init: "fdelta p = 0 \<Longrightarrow> rdelta p = 0"
  shows "unat (udp_invert_portmap fdelta rdelta (p + fdelta p))
           = (65536 - unat (fdelta p)) mod 65536
       \<and> p + fdelta p + udp_invert_portmap fdelta rdelta (p + fdelta p) = p"
proof -
  have "unat p < 2 ^ LENGTH(16)" by (rule unsigned_less)
  then have pl: "unat p < NUM_PORTS" by (simp add: NUM_PORTS_def)
  have res: "udp_invert_portmap fdelta rdelta (p + fdelta p) = - fdelta p"
  proof (cases "fdelta p = 0")
    case True
    have "fold (invert_step fdelta) [0..<NUM_PORTS] rdelta p = rdelta p"
    proof (rule invert_fold_untouched)
      fix i
      assume i: "i \<in> set [0..<NUM_PORTS]" and nz: "fdelta (of_nat i) \<noteq> 0"
      show "of_nat i + fdelta (of_nat i) \<noteq> p"
      proof (cases "i = unat p")
        case True
        with nz \<open>fdelta p = 0\<close> show ?thesis by simp
      next
        case False
        with i have "(of_nat i :: u16) \<noteq> p" by (simp add: port_index_neq NUM_PORTS_def)
        from inj [OF this nz] \<open>fdelta p = 0\<close> show ?thesis by simp
      qed
    qed
    with True init show ?thesis by (simp add: udp_invert_portmap_def)
  next
    case False
    have "fold (invert_step fdelta) [0..<NUM_PORTS] rdelta
            (of_nat (unat p) + fdelta (of_nat (unat p))) = - fdelta (of_nat (unat p))"
    proof (rule invert_fold_last_writer [OF pl])
      show "fdelta (of_nat (unat p)) \<noteq> 0" using False by simp
    next
      fix j
      assume "unat p < j" and "j < NUM_PORTS" and nz: "fdelta (of_nat j) \<noteq> 0"
      then have "(of_nat j :: u16) \<noteq> p" by (simp add: port_index_neq NUM_PORTS_def)
      from inj [OF this nz]
      show "of_nat j + fdelta (of_nat j) \<noteq> of_nat (unat p) + fdelta (of_nat (unat p))"
        by simp
    qed
    then show ?thesis by (simp add: udp_invert_portmap_def)
  qed
  have "unat (- fdelta p) = (65536 - unat (fdelta p)) mod 65536"
    using rdelta_entry_neg [of "fdelta p", symmetric] by (simp add: unat_of_nat NUM_PORTS_def)
  with res show ?thesis by simp
qed

theorem C7_invert_portmap_witness:
  "unat (udp_invert_portmap fwd_single (\<lambda>_. 0) (8080 + fwd_single 8080))
     = (65536 - unat (fwd_single 8080)) mod 65536
   \<and> 8080 + fwd_single 8080 + udp_invert_portmap fwd_single (\<lambda>_. 0) (8080 + fwd_single 8080)
       = 8080
   \<and> 8080 + fwd_single 8080 = 80"
  using C7_invert_portmap [of 8080 fwd_single "\<lambda>_. 0"] by (simp add: fwd_single_def)

section \<open>Flags, events and reset of a connection\<close>

lemma ucast_or8: "(ucast ((ucast (f::u8) :: 64 word) OR ucast (g::u8)) :: u8) = f OR g"
  by (rule bit_eqI) (auto simp: bit_simps)

lemma ucast_and_not8:
  "(ucast ((ucast (f::u8) :: 64 word) AND NOT (ucast (g::u8))) :: u8) = f AND NOT g"
  by (rule bit_eqI) (auto simp: bit_simps)

lemma ucast_8_64_id: "(ucast (ucast (x::u8) :: 64 word) :: u8) = x"
  by (rule bit_eqI) (auto simp: bit_simps)

lemma ucast_8_64_zero: "((ucast (x::u8) :: 64 word) = 0) = (x = 0)"
  by (metis ucast_8_64_id ucast_0)

lemma ucast_and_zero: "((ucast (f::u8) :: 64 word) AND ucast (g::u8) = 0) = (f AND g = 0)"
proof -
  have "(ucast f :: 64 word) AND ucast g = ucast (f AND g)"
    by (rule bit_eqI) (auto simp: bit_simps)
  then show ?thesis by (simp add: ucast_8_64_zero)
qed

lemma conn_event_closed:
  "conn_event_do sys c CLOSED = (c\<lparr>events := CLOSED\<rparr>, [Fn ''tcp_hash_remove''])"
  by (simp add: conn_event_do_def CLOSED_def CONN_HAS_def SOCK_FIN_SENT_def TAP_FIN_ACKED_def)

lemma conn_flag_LOCAL:
  "conn_flag_do sys c (ucast LOCAL) =
     (if flags c AND LOCAL \<noteq> 0 then (c, []) else (c\<lparr>flags := flags c OR LOCAL\<rparr>, []))"
proof -
  have g: "(ucast LOCAL :: 64 word) AND (ucast LOCAL - 1) = 0"
    "(ucast LOCAL :: 64 word) \<noteq> ucast ACK_FROM_TAP_DUE"
    "(ucast LOCAL :: 64 word) \<noteq> ucast ACK_TO_TAP_DUE"
    "(ucast LOCAL :: 64 word) \<noteq> ucast STALLED"
    "(ucast LOCAL :: 64 word) \<noteq> NOT (ucast ACK_FROM_TAP_DUE)"
    "(ucast LOCAL :: 64 word) \<noteq> NOT (ucast ACK_TO_TAP_DUE)"
    "(ucast LOCAL :: 64 word) \<noteq> NOT (ucast STALLED)"
    by (simp_all add: LOCAL_def ACK_FROM_TAP_DUE_def ACK_TO_TAP_DUE_def STALLED_def)
  show ?thesis
    by (simp add: conn_flag_do_def g ucast_and_zero ucast_or8)
qed

lemma conn_flag_ACTIVE_CLOSE:
  "conn_flag_do sys c (ucast ACTIVE_CLOSE) =
     (if flags c AND ACTIVE_CLOSE \<noteq> 0 then (c, [])
      else (c\<lparr>flags := flags c OR ACTIVE_CLOSE\<rparr>, []))"
proof -
  have g: "(ucast ACTIVE_CLOSE :: 64 word) AND (ucast ACTIVE_CLOSE - 1) = 0"
    "(ucast ACTIVE_CLOSE :: 64 word) \<noteq> ucast ACK_FROM_TAP_DUE"
    "(ucast ACTIVE_CLOSE :: 64 word) \<noteq> ucast ACK_TO_TAP_DUE"
    "(ucast ACTIVE_CLOSE :: 64 word) \<noteq> ucast STALLED"
    "(ucast ACTIVE_CLOSE :: 64 word) \<noteq> NOT (ucast ACK_FROM_TAP_DUE)"
    "(ucast ACTIVE_CLOSE :: 64 word) \<noteq> NOT (ucast ACK_TO_TAP_DUE)"
    "(ucast ACTIVE_CLOSE :: 64 word) \<noteq> NOT (ucast STALLED)"
    by (simp_all add: ACTIVE_CLOSE_def ACK_FROM_TAP_DUE_def ACK_TO_TAP_DUE_def STALLED_def)
  show ?thesis
    by (simp add: conn_flag_do_def g ucast_and_zero ucast_or8)
qed

lemma conn_flag_ACK_TO_TAP_DUE:
  "conn_flag_do sys c (ucast ACK_TO_TAP_DUE) =
     (if flags c AND ACK_TO_TAP_DUE \<noteq> 0 then (c, [])
      else tcp_timer_ctl sys (c\<lparr>flags := flags c OR ACK_TO_TAP_DUE\<rparr>))"
proof -
  have g: "(ucast ACK_TO_TAP_DUE :: 64 word) AND (ucast ACK_TO_TAP_DUE - 1) = 0"
    "(ucast ACK_TO_TAP_DUE :: 64 word) \<noteq> ucast ACK_FROM_TAP_DUE"
    "(ucast ACK_TO_TAP_DUE :: 64 word) \<noteq> ucast STALLED"
    "(ucast ACK_TO_TAP_DUE :: 64 word) \<noteq> NOT (ucast STALLED)"
    by (simp_all add: ACK_FROM_TAP_DUE_def ACK_TO_TAP_DUE_def STALLED_def)
  show ?thesis
    by (simp add: conn_flag_do_def g ucast_and_zero ucast_or8)
qed

lemma conn_flag_ACK_FROM_TAP_DUE:
  "conn_flag_do sys c (ucast ACK_FROM_TAP_DUE) =
     (if flags c AND ACK_FROM_TAP_DUE \<noteq> 0 then tcp_timer_ctl sys c
      else tcp_timer_ctl sys (c\<lparr>flags := flags c OR ACK_FROM_TAP_DUE\<rparr>))"
proof -
  have g: "(ucast ACK_FROM_TAP_DUE :: 64 word) AND (ucast ACK_FROM_TAP_DUE - 1) = 0"
    "(ucast ACK_FROM_TAP_DUE :: 64 word) \<noteq> ucast STALLED"
    "(ucast ACK_FROM_TAP_DUE :: 64 word) \<noteq> NOT (ucast STALLED)"
    by (simp_all add: ACK_FROM_TAP_DUE_def ACK_TO_TAP_DUE_def STALLED_def)
  show ?thesis
    by (simp add: conn_flag_do_def g ucast_and_zero ucast_or8)
qed

lemma conn_flag_not_ACK_TO_TAP_DUE:
  "conn_flag_do sys c (NOT (ucast ACK_TO_TAP_DUE)) =
     (if flags c AND ACK_TO_TAP_DUE = 0 then (c, [])
      else if flags c AND NOT ACK_TO_TAP_DUE AND ACK_FROM_TAP_DUE \<noteq> 0
        then tcp_timer_ctl sys (c\<lparr>flags := flags c AND NOT ACK_TO_TAP_DUE\<rparr>)
      else (c\<lparr>flags := flags c AND NOT ACK_TO_TAP_DUE\<rparr>, []))"
proof -
  have g: "(NOT (ucast ACK_TO_TAP_DUE) :: 64 word) AND (NOT (ucast ACK_TO_TAP_DUE) - 1) \<noteq> 0"
    "(NOT (ucast ACK_TO_TAP_DUE) :: 64 word) \<noteq> ucast ACK_FROM_TAP_DUE"
    "(NOT (ucast ACK_TO_TAP_DUE) :: 64 word) \<noteq> ucast ACK_TO_TAP_DUE"
    "(NOT (ucast ACK_TO_TAP_DUE) :: 64 word) \<noteq> ucast STALLED"
    "(ucast ACK_TO_TAP_DUE :: 64 word) \<noteq> ucast STALLED"
    "(ucast ACK_TO_TAP_DUE :: 64 word) \<noteq> ucast ACK_FROM_TAP_DUE"
    by (simp_all add: ACK_FROM_TAP_DUE_def ACK_TO_TAP_DUE_def STALLED_def)
  have h: "(f AND NOT ACK_TO_TAP_DUE) AND ACK_TO_TAP_DUE = 0" for f :: u8
    by (simp add: and.assoc)
  show ?thesis
    by (simp add: conn_flag_do_def g h ucast_and_zero ucast_and_not8 and.assoc)
qed

lemma timer_ctl_flags: "flags (fst (tcp_timer_ctl sys c)) = flags c"
  by (simp add: tcp_timer_ctl_def Let_def)

lemma timer_ctl_no_connect: "Connect s \<notin> set (snd (tcp_timer_ctl sys c))"
  by (simp add: tcp_timer_ctl_def Let_def)

lemma epoll_ctl_flags: "flags (fst (snd (tcp_epoll_ctl_sys sys c))) = flags c"
  by (simp add: tcp_epoll_ctl_sys_def tcp_epoll_ctl_def Let_def)

lemma epoll_ctl_no_connect: "Connect s \<notin> set (snd (snd (tcp_epoll_ctl_sys sys c)))"
  by (simp add: tcp_epoll_ctl_sys_def tcp_epoll_ctl_def Let_def)

lemma local_masks:
  "((f::u8) OR ACTIVE_CLOSE) AND LOCAL = f AND LOCAL"
  "((f::u8) OR ACK_TO_TAP_DUE) AND LOCAL = f AND LOCAL"
  "((f::u8) OR ACK_FROM_TAP_DUE) AND LOCAL = f AND LOCAL"
  "((f::u8) AND NOT ACK_TO_TAP_DUE) AND LOCAL = f AND LOCAL"
  by (simp_all add: ACTIVE_CLOSE_def ACK_TO_TAP_DUE_def ACK_FROM_TAP_DUE_def LOCAL_def
      bit.conj_disj_distrib2 and.assoc)

lemma conn_flag_keeps_local:
  assumes "f = ucast ACTIVE_CLOSE \<or> f = ucast ACK_TO_TAP_DUE \<or> f = ucast ACK_FROM_TAP_DUE
     \<or> f = NOT (ucast ACK_TO_TAP_DUE)"
  shows "flags (fst (conn_flag_do sys c f)) AND LOCAL = flags c AND LOCAL"
    and "Connect s \<notin> set (snd (conn_flag_do sys c f))"
  using assms
  by (auto simp: conn_flag_ACTIVE_CLOSE conn_flag_ACK_TO_TAP_DUE conn_flag_ACK_FROM_TAP_DUE
      conn_flag_not_ACK_TO_TAP_DUE timer_ctl_flags timer_ctl_no_connect local_masks
      split: if_splits)

lemma conn_event_keeps_local:
  "flags (fst (conn_event_do sys c e)) AND LOCAL = flags c AND LOCAL"
  "Connect s \<notin> set (snd (conn_event_do sys c e))"
  by (simp_all add: conn_event_do_def Let_def split_def timer_ctl_flags timer_ctl_no_connect
      epoll_ctl_flags epoll_ctl_no_connect conn_flag_keeps_local)

lemma update_seqack_keeps_local:
  "flags (fst (snd (tcp_update_seqack_wnd sys c fl))) AND LOCAL = flags c AND LOCAL"
  "Connect s \<notin> set (snd (snd (tcp_update_seqack_wnd sys c fl)))"
  by (simp_all add: tcp_update_seqack_wnd_def Let_def split_def conn_flag_keeps_local)

lemma send_flag_keeps_local:
  "flags (fst (snd (tcp_send_flag sys c fl))) AND LOCAL = flags c AND LOCAL"
  "Connect s \<notin> set (snd (snd (tcp_send_flag sys c fl)))"
  by (simp_all add: tcp_send_flag_def Let_def split_def conn_flag_keeps_local
      conn_event_keeps_local update_seqack_keeps_local)

lemma rst_keeps_local:
  "flags (fst (tcp_rst_do sys c)) AND LOCAL = flags c AND LOCAL"
  "Connect s \<notin> set (snd (tcp_rst_do sys c))"
  by (simp_all add: tcp_rst_do_def Let_def split_def send_flag_keeps_local
      conn_event_keeps_local)

lemma tcp_send_flag_rst_cases:
  "tcp_send_flag sys c RST = (r, c', cs) \<Longrightarrow>
     (r \<noteq> 0 \<and> events c' = CLOSED \<and> tcp_info_err sys \<noteq> 0)
   \<or> (r = 0 \<and> tcp_info_err sys = 0 \<and> Queue_flags_frame RST \<in> set cs)"
  by (auto simp: tcp_send_flag_def conn_event_closed RST_def SYN_def ACK_def FIN_def
      ECONNRESET_def Let_def split: prod.splits if_splits)

lemma tcp_rst_do_events: "events (fst (tcp_rst_do sys c)) = CLOSED"
proof (cases "events c = CLOSED")
  case True
  then show ?thesis by (simp add: tcp_rst_do_def)
next
  case False
  obtain r c' cs where sf: "tcp_send_flag sys c RST = (r, c', cs)"
    by (cases "tcp_send_flag sys c RST") auto
  from tcp_send_flag_rst_cases [OF sf] False sf show ?thesis
    by (auto simp: tcp_rst_do_def conn_event_closed)
qed

lemma tcp_rst_do_frame:
  assumes "events c \<noteq> CLOSED" and "tcp_info_err sys = 0"
  shows "Queue_flags_frame RST \<in> set (snd (tcp_rst_do sys c))"
proof -
  obtain r c' cs where sf: "tcp_send_flag sys c RST = (r, c', cs)"
    by (cases "tcp_send_flag sys c RST") auto
  from tcp_send_flag_rst_cases [OF sf] assms sf show ?thesis
    by (auto simp: tcp_rst_do_def conn_event_closed)
qed

lemma timer_ctl_no_frame:
  "Queue_flags_frame f \<notin> set (snd (tcp_timer_ctl sys c))"
  "Fn n \<notin> set (snd (tcp_timer_ctl sys c))"
  by (simp_all add: tcp_timer_ctl_def Let_def)

lemma epoll_ctl_no_frame:
  "Queue_flags_frame f \<notin> set (snd (snd (tcp_epoll_ctl_sys sys c)))"
  "Fn n \<notin> set (snd (snd (tcp_epoll_ctl_sys sys c)))"
  by (simp_all add: tcp_epoll_ctl_sys_def tcp_epoll_ctl_def Let_def)

lemma conn_flag_no_frame:
  assumes "g = ucast ACTIVE_CLOSE \<or> g = ucast ACK_TO_TAP_DUE \<or> g = ucast ACK_FROM_TAP_DUE
     \<or> g = NOT (ucast ACK_TO_TAP_DUE)"
  shows "Queue_flags_frame f \<notin> set (snd (conn_flag_do sys c g))"
    and "Fn n \<notin> set (snd (conn_flag_do sys c g))"
  using assms
  by (auto simp: conn_flag_ACTIVE_CLOSE conn_flag_ACK_TO_TAP_DUE conn_flag_ACK_FROM_TAP_DUE
      conn_flag_not_ACK_TO_TAP_DUE timer_ctl_no_frame split: if_splits)

lemma conn_event_no_frame:
  "Queue_flags_frame f \<notin> set (snd (conn_event_do sys c e))"
  by (simp add: conn_event_do_def Let_def split_def timer_ctl_no_frame epoll_ctl_no_frame
      conn_flag_no_frame)

lemma tcp_rst_do_no_info:
  assumes "events c \<noteq> CLOSED" and "tcp_info_err sys \<noteq> 0"
  shows "tcp_rst_do sys c
    = (c\<lparr>events := CLOSED\<rparr>, [Getsockopt_tcp_info (sock c), Fn ''tcp_hash_remove''])"
  using assms
  by (simp add: tcp_rst_do_def tcp_send_flag_def conn_event_closed RST_def ECONNRESET_def)

section \<open>Retransmission timer\<close>













section \<open>Connection request from the tap\<close>

lemma syn_rcvd_events:
  "events (fst (conn_event_do sys (new_conn s) TAP_SYN_RCVD)) = TAP_SYN_RCVD"
  by (simp add: conn_event_do_def new_conn_def Let_def split_def TAP_SYN_RCVD_def CLOSED_def
      CONN_STATE_BITS_def SOCK_ACCEPTED_def ESTABLISHED_def TAP_FIN_RCVD_def CONN_HAS_def
      SOCK_FIN_SENT_def TAP_FIN_ACKED_def tcp_epoll_ctl_sys_def tcp_epoll_ctl_def)

lemma syn_rcvd_local:
  "flags (fst (conn_event_do sys (new_conn s) TAP_SYN_RCVD)) AND LOCAL = 0"
  by (simp add: conn_event_keeps_local) (simp add: new_conn_def)

text \<open>
  C10, as stated, says that a RST is sent whenever the \<^verbatim>\<open>bind()\<close> succeeds. The reset
  (\<^verbatim>\<open>tcp_rst\<close>) builds the RST segment in \<^verbatim>\<open>tcp_send_flag()\<close>, which first reads
  \<^verbatim>\<open>TCP_INFO\<close> from the socket; when that \<^verbatim>\<open>getsockopt()\<close> fails, the connection is
  closed at once and nothing is queued. For the SYN \<open>syn_port_free\<close> (valid endpoints,
  \<^verbatim>\<open>bind()\<close> succeeds) on a kernel where \<^verbatim>\<open>TCP_INFO\<close> cannot be read, the calls of
  \<^verbatim>\<open>tcp_conn_from_tap()\<close> end with the \<^verbatim>\<open>bind()\<close>, the failed \<^verbatim>\<open>getsockopt()\<close> and the
  removal from the hash table: no RST segment is queued to the tap.
\<close>

theorem C10_bind_probe_counterexample:
  "flow_alloc_ok syn_port_free \<and> \<not> invalid_endpoint syn_port_free
   \<and> 0 \<le> conn_sock_res syn_port_free \<and> bind_err syn_port_free = 0
   \<and> tcp_info_err sys_no_info \<noteq> 0
   \<and> snd (tcp_conn_from_tap sys_no_info syn_port_free)
       = [Fn ''flow_alloc'', Fn ''tcp_conn_sock'', Fn ''flow_start'',
          Epoll_ctl EPOLL_CTL_ADD 5 (EPOLLOUT OR EPOLLET OR EPOLLRDHUP),
          Fn ''tcp_conn_tap_mss'', Fn ''setsockopt(TCP_MAXSEG)'', Fn ''tcp_get_tap_ws'',
          Fn ''tcp_seq_init'', Fn ''tcp_hash_insert'', Bind 5,
          Getsockopt_tcp_info 5, Fn ''tcp_hash_remove'']
   \<and> Queue_flags_frame RST \<notin> set (snd (tcp_conn_from_tap sys_no_info syn_port_free))"
  by (simp add: tcp_conn_from_tap_def syn_port_free_def sys_no_info_def sys_quiet_def
      conn_event_do_def tcp_epoll_ctl_sys_def tcp_epoll_ctl_def tcp_conn_epoll_events_def
      tcp_rst_do_def tcp_send_flag_def new_conn_def CONN_HAS_def Let_def
      TAP_SYN_RCVD_def CLOSED_def CONN_STATE_BITS_def SOCK_ACCEPTED_def ESTABLISHED_def
      TAP_FIN_RCVD_def SOCK_FIN_SENT_def TAP_FIN_ACKED_def RST_def EBADF_def ECONNRESET_def
      EINPROGRESS_def)

text \<open>
  C10, amended: for a SYN from the guest with valid endpoints, for which a flow entry
  and a socket were obtained (and, for a link-local IPv6 destination, the bind to the
  own link-local address worked): if \<^verbatim>\<open>bind()\<close> of the socket to the (possibly
  remapped) destination succeeds, \<^verbatim>\<open>tcp_conn_from_tap()\<close> leaves the connection
  \<^verbatim>\<open>CLOSED\<close>, never calls \<^verbatim>\<open>connect()\<close>, and queues a RST segment to the tap exactly
  when \<^verbatim>\<open>TCP_INFO\<close> can be read from the socket; if that \<^verbatim>\<open>bind()\<close> fails, \<^verbatim>\<open>connect()\<close>
  is called, and the connection carries the \<^verbatim>\<open>LOCAL\<close> flag exactly when the \<^verbatim>\<open>errno\<close> of
  the bind is neither \<^verbatim>\<open>EADDRNOTAVAIL\<close> nor \<^verbatim>\<open>EACCES\<close>.
\<close>

theorem C10_bind_probe:
  assumes "flow_alloc_ok inp" and "\<not> invalid_endpoint inp" and "0 \<le> conn_sock_res inp"
    and "\<not> (af_inet6 inp \<and> dst_linklocal inp \<and> bind_ll_err inp \<noteq> 0)"
  shows "(bind_err inp = 0 \<longrightarrow>
            (\<exists>c. fst (tcp_conn_from_tap sys inp) = Some c \<and> events c = CLOSED)
          \<and> Connect (conn_sock_res inp) \<notin> set (snd (tcp_conn_from_tap sys inp))
          \<and> (Queue_flags_frame RST \<in> set (snd (tcp_conn_from_tap sys inp)))
              = (tcp_info_err sys = 0))
       \<and> (bind_err inp \<noteq> 0 \<longrightarrow>
            Connect (conn_sock_res inp) \<in> set (snd (tcp_conn_from_tap sys inp))
          \<and> (\<exists>c. fst (tcp_conn_from_tap sys inp) = Some c
                \<and> (flags c AND LOCAL \<noteq> 0)
                  = (bind_err inp \<noteq> EADDRNOTAVAIL \<and> bind_err inp \<noteq> EACCES)))"
proof (cases "bind_err inp = 0")
  case True
  let ?c2 = "(fst (conn_event_do sys (new_conn (conn_sock_res inp)) TAP_SYN_RCVD))
      \<lparr>wnd_to_tap := WINDOW_DEFAULT, seq_from_tap := th_seq inp + 1,
        seq_ack_to_tap := th_seq inp + 1, seq_to_tap := isn inp,
        seq_ack_from_tap := isn inp\<rparr>"
  have ev: "events ?c2 \<noteq> CLOSED"
    by (simp add: syn_rcvd_events) (simp add: TAP_SYN_RCVD_def CLOSED_def)
  show ?thesis
  proof (cases "tcp_info_err sys = 0")
    case ok: True
    show ?thesis
      using True ok assms tcp_rst_do_events [of sys ?c2] tcp_rst_do_frame [OF ev ok]
      by (simp add: tcp_conn_from_tap_def Let_def split_def rst_keeps_local
          conn_event_keeps_local)
  next
    case bad: False
    show ?thesis
      using True bad assms tcp_rst_do_events [of sys ?c2] tcp_rst_do_no_info [OF ev bad]
      by (simp add: tcp_conn_from_tap_def Let_def split_def rst_keeps_local
          conn_event_keeps_local conn_event_no_frame)
  qed
next
  case False
  have lm: "LOCAL \<noteq> 0" "flags (new_conn (conn_sock_res inp)) = 0"
    by (simp_all add: LOCAL_def new_conn_def)
  show ?thesis
    using False assms lm
    by (simp add: tcp_conn_from_tap_def Let_def split_def rst_keeps_local
        conn_event_keeps_local send_flag_keeps_local epoll_ctl_flags conn_flag_LOCAL
        syn_rcvd_local)
qed

lemma syn_port_free_fields:
  "flow_alloc_ok syn_port_free" "\<not> invalid_endpoint syn_port_free"
  "conn_sock_res syn_port_free = 5" "\<not> af_inet6 syn_port_free"
  "bind_err syn_port_free = 0"
  by (simp_all add: syn_port_free_def)

lemma syn_port_taken_fields:
  "flow_alloc_ok syn_port_taken" "\<not> invalid_endpoint syn_port_taken"
  "conn_sock_res syn_port_taken = 5" "\<not> af_inet6 syn_port_taken"
  "bind_err syn_port_taken = 98"
  by (simp_all add: syn_port_taken_def syn_port_free_def)

theorem C10_bind_probe_witness:
  "flow_alloc_ok syn_port_free \<and> \<not> invalid_endpoint syn_port_free
   \<and> 0 \<le> conn_sock_res syn_port_free
   \<and> \<not> (af_inet6 syn_port_free \<and> dst_linklocal syn_port_free
          \<and> bind_ll_err syn_port_free \<noteq> 0)
   \<and> bind_err syn_port_free = 0
   \<and> (\<exists>c. fst (tcp_conn_from_tap sys_quiet syn_port_free) = Some c \<and> events c = CLOSED)
   \<and> Connect 5 \<notin> set (snd (tcp_conn_from_tap sys_quiet syn_port_free))
   \<and> Queue_flags_frame RST \<in> set (snd (tcp_conn_from_tap sys_quiet syn_port_free))
   \<and> (\<exists>c. fst (tcp_conn_from_tap sys_no_info syn_port_free) = Some c \<and> events c = CLOSED)
   \<and> Connect 5 \<notin> set (snd (tcp_conn_from_tap sys_no_info syn_port_free))
   \<and> Queue_flags_frame RST \<notin> set (snd (tcp_conn_from_tap sys_no_info syn_port_free))
   \<and> flow_alloc_ok syn_port_taken \<and> \<not> invalid_endpoint syn_port_taken
   \<and> 0 \<le> conn_sock_res syn_port_taken \<and> bind_err syn_port_taken \<noteq> 0
   \<and> Connect 5 \<in> set (snd (tcp_conn_from_tap sys_quiet syn_port_taken))
   \<and> (\<exists>c. fst (tcp_conn_from_tap sys_quiet syn_port_taken) = Some c
          \<and> flags c AND LOCAL \<noteq> 0)"
  using C10_bind_probe [of syn_port_free sys_quiet]
    C10_bind_probe [of syn_port_free sys_no_info]
    C10_bind_probe [of syn_port_taken sys_quiet]
  by (simp add: syn_port_free_fields syn_port_taken_fields)
    (simp add: sys_quiet_def sys_no_info_def EBADF_def EADDRNOTAVAIL_def EACCES_def)

section \<open>Descriptors above the reference limit\<close>

lemma FD_REF_MAX_val: "FD_REF_MAX = 16777215"
  by (simp add: FD_REF_MAX_def FD_REF_BITS_def)

lemma tcp_listen_handler_accepts_any_fd:
  assumes "\<not> no_tcp" and "flow_ok" and "0 \<le> s" and "\<not> invalid_peer"
  shows "Close s \<notin> set (tcp_listen_handler no_tcp flow_ok s invalid_peer spliced)
       \<and> Fn ''flow_alloc_cancel'' \<notin> set (tcp_listen_handler no_tcp flow_ok s invalid_peer spliced)
       \<and> Fn ''tcp_splice_conn_from_sock''
           \<in> set (tcp_listen_handler no_tcp flow_ok s invalid_peer spliced)"
  using assms by (simp add: tcp_listen_handler_def)

text \<open>
  C4, as stated: every \<^verbatim>\<open>socket()\<close> that returns a descriptor above \<^verbatim>\<open>FD_REF_MAX\<close> is
  reported as \<^verbatim>\<open>EIO\<close>. This fails in \<^verbatim>\<open>sock_l4()\<close>: for descriptor \<open>2 ^ 24\<close> it closes
  the descriptor and registers nothing, but the code it returns is \<^verbatim>\<open>-EBADF\<close>.
\<close>

theorem C4_fd_limit_counterexample:
  "FD_REF_MAX < l4_socket_res l4_high_fd
   \<and> sock_l4 l4_high_fd True AF_INET IPPROTO_TCP False False
       = (- EBADF, [Socket, Close 16777216])
   \<and> - EBADF \<noteq> - EIO"
  by (simp add: sock_l4_def l4_high_fd_def FD_REF_MAX_val Let_def AF_INET_def AF_UNSPEC_def
      IPPROTO_TCP_def EBADF_def EIO_def)

text \<open>
  C4, amended: for every \<^verbatim>\<open>socket()\<close> performed by \<^verbatim>\<open>tcp_conn_new_sock()\<close> or by
  \<^verbatim>\<open>sock_l4()\<close>, a returned descriptor greater than \<open>FD_REF_MAX = 2 ^ 24 - 1\<close> is closed
  at once, a negative error code is returned to the caller (\<^verbatim>\<open>-EIO\<close> by
  \<^verbatim>\<open>tcp_conn_new_sock()\<close>, \<^verbatim>\<open>-EBADF\<close> by \<^verbatim>\<open>sock_l4()\<close>), and no \<^verbatim>\<open>epoll_ctl()\<close> is
  issued for that descriptor.
\<close>

theorem C4_fd_limit:
  "(FD_REF_MAX < s \<longrightarrow> tcp_conn_new_sock s err = (- EIO, [Socket, Close s]))
   \<and> (FD_REF_MAX < l4_socket_res k
        \<and> (proto = IPPROTO_TCP \<or> proto = IPPROTO_UDP \<or> proto = IPPROTO_ICMP
             \<or> proto = IPPROTO_ICMPV6)
        \<and> \<not> (af = AF_UNSPEC \<and> (\<not> dual \<or> have_addr)) \<longrightarrow>
       sock_l4 k dual af proto have_addr have_ifname
         = (- EBADF, [Socket, Close (l4_socket_res k)])
       \<and> (\<forall>op m. Epoll_ctl op (l4_socket_res k) m
              \<notin> set (snd (sock_l4 k dual af proto have_addr have_ifname))))"
proof -
  have "FD_REF_MAX < l4_socket_res k \<Longrightarrow> \<not> l4_socket_res k < 0"
    by (simp add: FD_REF_MAX_val)
  then show ?thesis
    by (auto simp: tcp_conn_new_sock_def sock_l4_def Let_def)
qed

theorem C4_fd_limit_witness:
  "FD_REF_MAX < 16777216
   \<and> tcp_conn_new_sock 16777216 0 = (- EIO, [Socket, Close 16777216])
   \<and> FD_REF_MAX < l4_socket_res l4_high_fd
   \<and> sock_l4 l4_high_fd True AF_INET IPPROTO_UDP False False
       = (- EBADF, [Socket, Close (l4_socket_res l4_high_fd)])"
  using C4_fd_limit [of 16777216 0 l4_high_fd IPPROTO_UDP AF_INET True False False]
  by (simp add: FD_REF_MAX_val l4_high_fd_def AF_INET_def AF_UNSPEC_def)

section \<open>Expiry of UDP bindings\<close>




























































section \<open>Flushing TCP data frames\<close>

lemma seq_updates_sum:
  "seq_updates su m seqs a
     = seqs a + (\<Sum>i \<leftarrow> filter (\<lambda>i. su_seq (su i) = a) [0..<m]. ucast (su_len (su i)))"
  by (induction m arbitrary: a) (auto simp: seq_updates_def seq_update_step_def)

text \<open>
  Relative to the counts \<open>m6\<close> and \<open>m4\<close> that \<^verbatim>\<open>tap_send_frames()\<close> reports, the flush
  adds to each connection's \<open>seq_to_tap\<close> the recorded lengths of the first \<open>m6\<close> IPv6
  and the first \<open>m4\<close> IPv4 entries that point to it, and nothing else.
\<close>

lemma flush_adds_reported_frames:
  assumes "tap_send_frames mode k6 (tcp6_l2_iov st) 1 (tcp6_l2_buf_used st) = Inr m6"
    and "tap_send_frames mode k4 (tcp4_l2_iov st) 1 (tcp4_l2_buf_used st) = Inr m4"
  shows "\<exists>st'. tcp_l2_data_buf_flush mode k6 k4 st = Inr st'
     \<and> tcp6_l2_buf_used st' = 0 \<and> tcp4_l2_buf_used st' = 0
     \<and> (\<forall>a. conn_seq_to_tap st' a = conn_seq_to_tap st a
          + (\<Sum>i \<leftarrow> filter (\<lambda>i. su_seq (tcp6_l2_buf_seq_update st i) = a) [0..<m6].
               ucast (su_len (tcp6_l2_buf_seq_update st i)))
          + (\<Sum>i \<leftarrow> filter (\<lambda>i. su_seq (tcp4_l2_buf_seq_update st i) = a) [0..<m4].
               ucast (su_len (tcp4_l2_buf_seq_update st i))))"
  using assms by (simp add: tcp_l2_data_buf_flush_def Let_def seq_updates_sum)

lemma passt_failed_sendmsg_sends_nothing:
  "sendmsg_res k < 0 \<Longrightarrow> tap_send_frames MODE_PASST k iov 1 n = Inr 0"
  by (simp add: tap_send_frames_def tap_send_frames_passt_def)

text \<open>
  C1 at a failing input: pasta mode, one IPv4 data frame with 100 bytes of payload
  queued by \<^verbatim>\<open>tcp_data_to_tap()\<close> for a connection whose \<open>seq_to_tap\<close> is 1000, and a
  tap on which \<^verbatim>\<open>writev()\<close> fails with \<^verbatim>\<open>EAGAIN\<close>. \<^verbatim>\<open>tap_send_frames()\<close> reports one
  frame sent although the write of that frame failed, and the flush advances
  \<open>seq_to_tap\<close> to 1100.
\<close>

theorem C1_failed_write_advances_seq:
  "tcp_data_to_tap MODE_PASTA tap_eagain tap_eagain l2_empty True 0 100 154 = Inr l2_one_frame
   \<and> writev_res tap_eagain 0 = (- 1, EAGAIN)
   \<and> tap_send_frames MODE_PASTA tap_eagain (tcp4_l2_iov l2_one_frame) 1
        (tcp4_l2_buf_used l2_one_frame) = Inr 1
   \<and> conn_seq_to_tap l2_one_frame 0 = 1000
   \<and> map_sum id (\<lambda>st. conn_seq_to_tap st 0)
        (tcp_l2_data_buf_flush MODE_PASTA tap_eagain tap_eagain l2_one_frame) = Inr 1100"
  by (simp add: tcp_data_to_tap_def l2_one_frame_def l2_empty_def TCP_FRAMES_MEM_def Let_def
      tcp_l2_data_buf_flush_def tap_send_frames_def tap_send_frames_pasta_def tap_eagain_def
      seq_updates_def seq_update_step_def iov_size_def EAGAIN_def)

section \<open>TCP hash table\<close>

lemma mod_sub_lt: "a < m \<Longrightarrow> mod_sub a (Suc 0) m < m"
  by (auto simp: mod_sub_def)

lemma hash_probe_in_range:
  assumes "probe_loop hc tc sidx x = Some y"
    and "x < TCP_HASH_TABLE_SIZE (hc_flow_max hc)"
  shows "y < TCP_HASH_TABLE_SIZE (hc_flow_max hc)"
  using assms
proof (induction hc tc sidx x y rule: probe_loop.raw_induct [rotated 1, consumes 1, case_names step])
  case (step probe_loop hc tc sidx b y)
  then show ?case
    by (auto split: if_splits simp: mod_sub_lt)
qed

lemma hash_probe_found:
  assumes "probe_loop hc tc sidx x = Some y"
  shows "flow_sidx_eq (tc ! y) (FLOW_SIDX_NONE (hc_flow_max hc)) \<or> flow_sidx_eq (tc ! y) sidx"
  using assms
proof (induction hc tc sidx x y rule: probe_loop.raw_induct [rotated 1, consumes 1, case_names step])
  case (step probe_loop hc tc sidx b y)
  then show ?case
    by (auto split: if_splits)
qed

lemma hash_probe_after_clear:
  assumes "probe_loop hc tc sidx x = Some y"
    and "flow_sidx_eq (tc ! y) sidx" and "y < length tc"
  shows "probe_loop hc (tc[y := FLOW_SIDX_NONE (hc_flow_max hc)]) sidx x = Some y"
  using assms
proof (induction hc tc sidx x y rule: probe_loop.raw_induct [rotated 1, consumes 1, case_names step])
  case (step pl hc tc sidx b y)
  show ?case
  proof (cases "\<not> flow_sidx_eq (tc ! b) (FLOW_SIDX_NONE (hc_flow_max hc)) \<and> \<not> flow_sidx_eq (tc ! b) sidx")
    case True
    with step(2) have rec: "pl hc tc sidx (mod_sub b 1 (TCP_HASH_TABLE_SIZE (hc_flow_max hc))) = Some y"
      by simp
    from True step(3) have "b \<noteq> y" by auto
    then have same: "tc[y := FLOW_SIDX_NONE (hc_flow_max hc)] ! b = tc ! b" by simp
    from step(1) [OF rec step(3) step(4)]
    have "probe_loop hc (tc[y := FLOW_SIDX_NONE (hc_flow_max hc)]) sidx
            (mod_sub b 1 (TCP_HASH_TABLE_SIZE (hc_flow_max hc))) = Some y" .
    with True same show ?thesis
      by (subst probe_loop.simps) simp
  next
    case False
    with step(2) have "y = b" by (auto split: if_splits)
    with step(4) have "flow_sidx_eq (tc[y := FLOW_SIDX_NONE (hc_flow_max hc)] ! b) (FLOW_SIDX_NONE (hc_flow_max hc))"
      by (simp add: flow_sidx_eq_def)
    with \<open>y = b\<close> show ?thesis
      by (subst probe_loop.simps) simp
  qed
qed

text \<open>
  C5, as stated, fails in both parts. First part: \<^verbatim>\<open>tcp_hash_insert()\<close> probes for the
  side index of the connection, not for its key, so inserting connections 0 and 1,
  which have the same key, leaves two buckets that match that key. Second part:
  with connections 0 and 2 stored in buckets 3 and 2 (same ideal bucket 3), removing
  connection 0 shifts connection 2 into bucket 3, and inserting connection 0 again
  puts it into bucket 2: the table is not the one before the removal.
\<close>

theorem C5_hash_table_counterexample:
  "tcp_hash_insert hc_small tc_empty 0
     = Some [tc_none, tc_none, tc_none, FLOW_SIDX 0 TAPSIDE, tc_none]
   \<and> tcp_hash_insert hc_small [tc_none, tc_none, tc_none, FLOW_SIDX 0 TAPSIDE, tc_none] 1
       = Some [tc_none, tc_none, FLOW_SIDX 1 TAPSIDE, FLOW_SIDX 0 TAPSIDE, tc_none]
   \<and> tcp_hash_match (hc_conn_key hc_small 0) key_a
   \<and> tcp_hash_match (hc_conn_key hc_small 1) key_a
   \<and> tcp_hash_insert hc_small [tc_none, tc_none, tc_none, FLOW_SIDX 0 TAPSIDE, tc_none] 2
       = Some [tc_none, tc_none, FLOW_SIDX 2 TAPSIDE, FLOW_SIDX 0 TAPSIDE, tc_none]
   \<and> tcp_hash_remove hc_small
         [tc_none, tc_none, FLOW_SIDX 2 TAPSIDE, FLOW_SIDX 0 TAPSIDE, tc_none] 0
       = Some [tc_none, tc_none, tc_none, FLOW_SIDX 2 TAPSIDE, tc_none]
   \<and> tcp_hash_insert hc_small [tc_none, tc_none, tc_none, FLOW_SIDX 2 TAPSIDE, tc_none] 0
       = Some [tc_none, tc_none, FLOW_SIDX 0 TAPSIDE, FLOW_SIDX 2 TAPSIDE, tc_none]
   \<and> [tc_none, tc_none, FLOW_SIDX 0 TAPSIDE, FLOW_SIDX 2 TAPSIDE, tc_none]
       \<noteq> [tc_none, tc_none, FLOW_SIDX 2 TAPSIDE, FLOW_SIDX 0 TAPSIDE, tc_none]"
  by code_simp

lemma scan_stops_cong:
  assumes "\<And>i. (flow_at_sidx (hc_flow_max hc) (T1 ! i) = None)
              = (flow_at_sidx (hc_flow_max hc) (T ! i) = None)"
  shows "scan_stops hc T1 s q n = scan_stops hc T s q n"
  by (induction n arbitrary: s) (simp_all add: assms)

lemma scan_stops_shift:
  assumes "flow_at_sidx (hc_flow_max hc) (T ! bc) \<noteq> None"
    and "flow_at_sidx (hc_flow_max hc) (T ! s) \<noteq> None"
  shows "scan_stops hc (T[bc := T ! s]) s' q n = scan_stops hc T s' q n"
proof (rule scan_stops_cong)
  fix i
  show "(flow_at_sidx (hc_flow_max hc) (T[bc := T ! s] ! i) = None)
      = (flow_at_sidx (hc_flow_max hc) (T ! i) = None)"
  proof (cases "i = bc \<and> bc < length T")
    case True
    then show ?thesis using assms by auto
  next
    case False
    then have "T[bc := T ! s] ! i = T ! i"
      by (cases "i = bc") (auto simp: list_update_beyond not_less)
    then show ?thesis by simp
  qed
qed

lemma shift_valid:
  assumes "flow_at_sidx fm (T ! s) \<noteq> None"
  shows "flow_at_sidx fm (T[bc := T ! s] ! s) \<noteq> None"
proof (cases "s = bc \<and> bc < length T")
  case True
  then show ?thesis using assms by simp
next
  case False
  then have "T[bc := T ! s] ! s = T ! s" by (cases "s = bc") auto
  then show ?thesis using assms by simp
qed

lemma remove_loop_stops:
  assumes "scan_stops hc T s q n"
    and "flow_at_sidx (hc_flow_max hc) (T ! bc) \<noteq> None" and "q \<noteq> bc"
  shows "\<exists>T'. remove_loop hc T bc s = Some T' \<and> T' ! q = T ! q \<and> length T' = length T"
  using assms
proof (induction n arbitrary: T bc s)
  case 0
  then show ?case by simp
next
  case (Suc n)
  let ?sz = "TCP_HASH_TABLE_SIZE (hc_flow_max hc)"
  from Suc.prems(1) have sq: "s \<noteq> q" by simp
  show ?case
  proof (cases "flow_at_sidx (hc_flow_max hc) (T ! s)")
    case None
    then have "remove_loop hc T bc s = Some (T[bc := FLOW_SIDX_NONE (hc_flow_max hc)])"
      by (subst remove_loop.simps) simp
    then show ?thesis using Suc.prems(3) by simp
  next
    case (Some f)
    with Suc.prems(1) have st: "scan_stops hc T (mod_sub s 1 ?sz) q n" by simp
    show ?thesis
    proof (cases "mod_between (unat (tcp_conn_hash hc f) mod ?sz) s bc ?sz")
      case True
      with Some have "remove_loop hc T bc s = remove_loop hc T bc (mod_sub s 1 ?sz)"
        by (subst remove_loop.simps) simp
      with Suc.IH [OF st Suc.prems(2,3)] show ?thesis by simp
    next
      case False
      with Some have step: "remove_loop hc T bc s
          = remove_loop hc (T[bc := T ! s]) s (mod_sub s 1 ?sz)"
        by (subst remove_loop.simps) simp
      have v: "flow_at_sidx (hc_flow_max hc) (T ! s) \<noteq> None" using Some by simp
      have st': "scan_stops hc (T[bc := T ! s]) (mod_sub s 1 ?sz) q n"
        using st by (simp add: scan_stops_shift [OF Suc.prems(2) v])
      from Suc.IH [OF st' shift_valid [OF v]] sq obtain T'
        where "remove_loop hc (T[bc := T ! s]) s (mod_sub s 1 ?sz) = Some T'"
          "T' ! q = T[bc := T ! s] ! q" "length T' = length T" by auto
      with step Suc.prems(3) show ?thesis by simp
    qed
  qed
qed

lemma remove_loop_fixed:
  assumes "scan_stops hc T s q n" and "cluster_fixed hc T b s n"
  shows "remove_loop hc T b s = Some (T[b := FLOW_SIDX_NONE (hc_flow_max hc)])"
  using assms
proof (induction n arbitrary: s)
  case 0
  then show ?case by simp
next
  case (Suc n)
  let ?sz = "TCP_HASH_TABLE_SIZE (hc_flow_max hc)"
  show ?case
  proof (cases "flow_at_sidx (hc_flow_max hc) (T ! s)")
    case None
    then show ?thesis by (subst remove_loop.simps) simp
  next
    case (Some f)
    with Suc.prems have st: "scan_stops hc T (mod_sub s 1 ?sz) q n"
      and fx: "cluster_fixed hc T b (mod_sub s 1 ?sz) n"
      and mb: "mod_between (unat (tcp_conn_hash hc f) mod ?sz) s b ?sz" by simp_all
    from Some mb have "remove_loop hc T b s = remove_loop hc T b (mod_sub s 1 ?sz)"
      by (subst remove_loop.simps) simp
    with Suc.IH [OF st fx] show ?thesis by simp
  qed
qed

lemma remove_loop_shifts:
  assumes "scan_stops hc T s b n" and "\<not> cluster_fixed hc T b s n"
    and "flow_at_sidx (hc_flow_max hc) (T ! b) \<noteq> None" and "b < length T"
    and "s < TCP_HASH_TABLE_SIZE (hc_flow_max hc)"
    and "length T = TCP_HASH_TABLE_SIZE (hc_flow_max hc)"
  shows "\<exists>T' i. remove_loop hc T b s = Some T' \<and> i \<noteq> b \<and> i < length T \<and> T' ! b = T ! i
           \<and> flow_at_sidx (hc_flow_max hc) (T ! i) \<noteq> None"
  using assms(1,2,5)
proof (induction n arbitrary: s)
  case 0
  then show ?case by simp
next
  case (Suc n)
  let ?sz = "TCP_HASH_TABLE_SIZE (hc_flow_max hc)"
  from Suc.prems(1) have sb: "s \<noteq> b" by simp
  have s': "mod_sub s 1 ?sz < ?sz" using Suc.prems(3) by (simp add: mod_sub_lt)
  show ?case
  proof (cases "flow_at_sidx (hc_flow_max hc) (T ! s)")
    case None
    with Suc.prems(2) show ?thesis by simp
  next
    case (Some f)
    with Suc.prems(1) have st: "scan_stops hc T (mod_sub s 1 ?sz) b n" by simp
    have v: "flow_at_sidx (hc_flow_max hc) (T ! s) \<noteq> None" using Some by simp
    show ?thesis
    proof (cases "mod_between (unat (tcp_conn_hash hc f) mod ?sz) s b ?sz")
      case True
      with Some Suc.prems(2) have nf: "\<not> cluster_fixed hc T b (mod_sub s 1 ?sz) n" by simp
      from Some True have "remove_loop hc T b s = remove_loop hc T b (mod_sub s 1 ?sz)"
        by (subst remove_loop.simps) simp
      with Suc.IH [OF st nf s'] show ?thesis by simp
    next
      case False
      with Some have step: "remove_loop hc T b s
          = remove_loop hc (T[b := T ! s]) s (mod_sub s 1 ?sz)"
        by (subst remove_loop.simps) simp
      have st': "scan_stops hc (T[b := T ! s]) (mod_sub s 1 ?sz) b n"
        using st by (simp add: scan_stops_shift [OF assms(3) v])
      from remove_loop_stops [OF st' shift_valid [OF v]] sb obtain T'
        where "remove_loop hc (T[b := T ! s]) s (mod_sub s 1 ?sz) = Some T'"
          "T' ! b = T[b := T ! s] ! b" by auto
      with step assms(4) have "remove_loop hc T b s = Some T' \<and> T' ! b = T ! s" by simp
      with sb v Suc.prems(3) assms(6) show ?thesis by auto
    qed
  qed
qed

lemma remove_loop_drops:
  assumes "scan_stops hc T s q n"
    and "flow_at_sidx (hc_flow_max hc) (T ! bc) \<noteq> None"
    and "\<forall>i<length T. T ! i = x \<longrightarrow> i = bc"
    and "x \<noteq> FLOW_SIDX_NONE (hc_flow_max hc)"
    and "s < TCP_HASH_TABLE_SIZE (hc_flow_max hc)"
    and "length T = TCP_HASH_TABLE_SIZE (hc_flow_max hc)"
  shows "\<exists>T'. remove_loop hc T bc s = Some T' \<and> length T' = length T
           \<and> (\<forall>i<length T. T' ! i \<noteq> x)"
  using assms(1,2,3,5,6)
proof (induction n arbitrary: T bc s)
  case 0
  then show ?case by simp
next
  case (Suc n)
  let ?sz = "TCP_HASH_TABLE_SIZE (hc_flow_max hc)"
  have s': "mod_sub s 1 ?sz < ?sz" using Suc.prems(4) by (simp add: mod_sub_lt)
  show ?case
  proof (cases "flow_at_sidx (hc_flow_max hc) (T ! s)")
    case None
    then have "remove_loop hc T bc s = Some (T[bc := FLOW_SIDX_NONE (hc_flow_max hc)])"
      by (subst remove_loop.simps) simp
    moreover have "\<forall>i<length T. T[bc := FLOW_SIDX_NONE (hc_flow_max hc)] ! i \<noteq> x"
    proof (intro allI impI)
      fix i assume i: "i < length T"
      show "T[bc := FLOW_SIDX_NONE (hc_flow_max hc)] ! i \<noteq> x"
      proof (cases "i = bc")
        case True
        then show ?thesis using i assms(4) by simp
      next
        case False
        then show ?thesis using i Suc.prems(3) by auto
      qed
    qed
    ultimately show ?thesis by simp
  next
    case (Some f)
    with Suc.prems(1) have st: "scan_stops hc T (mod_sub s 1 ?sz) q n" by simp
    have v: "flow_at_sidx (hc_flow_max hc) (T ! s) \<noteq> None" using Some by simp
    show ?thesis
    proof (cases "mod_between (unat (tcp_conn_hash hc f) mod ?sz) s bc ?sz")
      case True
      with Some have "remove_loop hc T bc s = remove_loop hc T bc (mod_sub s 1 ?sz)"
        by (subst remove_loop.simps) simp
      with Suc.IH [OF st Suc.prems(2,3) s' Suc.prems(5)] show ?thesis by simp
    next
      case False
      with Some have step: "remove_loop hc T bc s
          = remove_loop hc (T[bc := T ! s]) s (mod_sub s 1 ?sz)"
        by (subst remove_loop.simps) simp
      have st': "scan_stops hc (T[bc := T ! s]) (mod_sub s 1 ?sz) q n"
        using st by (simp add: scan_stops_shift [OF Suc.prems(2) v])
      have u: "\<forall>i<length (T[bc := T ! s]). T[bc := T ! s] ! i = x \<longrightarrow> i = s"
      proof (intro allI impI)
        fix i assume i: "i < length (T[bc := T ! s])" and e: "T[bc := T ! s] ! i = x"
        show "i = s"
        proof (cases "i = bc")
          case True
          with i e have "T ! s = x" by simp
          with Suc.prems(3,4,5) have "s = bc" by simp
          with True show ?thesis by simp
        next
          case False
          with i e have "T ! i = x" by simp
          with Suc.prems(3) i have "i = bc" by simp
          with False show ?thesis by simp
        qed
      qed
      have l: "length (T[bc := T ! s]) = ?sz" using Suc.prems(5) by simp
      from Suc.IH [OF st' shift_valid [OF v] u s' l] step show ?thesis by simp
    qed
  qed
qed


lemma scan_reaches:
  assumes "flow_at_sidx (hc_flow_max hc) (T ! i) = None"
    and "i < TCP_HASH_TABLE_SIZE (hc_flow_max hc)" and "q < TCP_HASH_TABLE_SIZE (hc_flow_max hc)"
    and "s < TCP_HASH_TABLE_SIZE (hc_flow_max hc)"
    and "mod_sub s i (TCP_HASH_TABLE_SIZE (hc_flow_max hc))
           < mod_sub s q (TCP_HASH_TABLE_SIZE (hc_flow_max hc))"
    and "mod_sub s i (TCP_HASH_TABLE_SIZE (hc_flow_max hc)) < n"
  shows "scan_stops hc T s q n"
  using assms(4,5,6)
proof (induction n arbitrary: s)
  case 0
  then show ?case by simp
next
  case (Suc n)
  let ?m = "TCP_HASH_TABLE_SIZE (hc_flow_max hc)"
  from Suc.prems(2) have sq: "s \<noteq> q" by (auto simp: mod_sub_def)
  show ?case
  proof (cases "flow_at_sidx (hc_flow_max hc) (T ! s) = None")
    case True
    with sq show ?thesis by simp
  next
    case False
    with assms(1) have si: "s \<noteq> i" by auto
    have a: "mod_sub s (Suc 0) ?m < ?m" using Suc.prems(1) by (rule mod_sub_lt)
    have b: "mod_sub (mod_sub s (Suc 0) ?m) i ?m < mod_sub (mod_sub s (Suc 0) ?m) q ?m"
      using Suc.prems(1,2) assms(2,3) si sq by (auto simp: mod_sub_def split: if_splits)
    have c: "mod_sub (mod_sub s (Suc 0) ?m) i ?m < n"
      using Suc.prems(1,3) assms(2) si by (auto simp: mod_sub_def split: if_splits)
    from Suc.IH [OF a b c] sq show ?thesis by simp
  qed
qed

lemma scan_stops_empty:
  assumes "\<exists>x\<in>set T. flow_at_sidx (hc_flow_max hc) x = None"
    and "flow_at_sidx (hc_flow_max hc) (T ! b) \<noteq> None"
    and "b < length T" and "length T = TCP_HASH_TABLE_SIZE (hc_flow_max hc)"
  shows "scan_stops hc T (mod_sub b 1 (TCP_HASH_TABLE_SIZE (hc_flow_max hc))) b (length T)"
proof -
  let ?m = "TCP_HASH_TABLE_SIZE (hc_flow_max hc)"
  from assms(1) obtain i where i: "i < length T"
    and e: "flow_at_sidx (hc_flow_max hc) (T ! i) = None"
    by (auto simp: in_set_conv_nth)
  from e assms(2) have ib: "i \<noteq> b" by auto
  have bm: "b < ?m" and im: "i < ?m" using assms(3,4) i by simp_all
  have s: "mod_sub b (Suc 0) ?m < ?m" using bm by (rule mod_sub_lt)
  have d: "mod_sub (mod_sub b (Suc 0) ?m) i ?m < mod_sub (mod_sub b (Suc 0) ?m) b ?m"
    using bm im ib by (auto simp: mod_sub_def split: if_splits)
  have n: "mod_sub (mod_sub b (Suc 0) ?m) i ?m < length T"
    using bm im assms(4) by (auto simp: mod_sub_def split: if_splits)
  from scan_reaches [OF e im bm s d n] show ?thesis by simp
qed

lemma sidx_eq_iff: "flow_sidx_eq a b = (a = (b :: flow_sidx))"
  by (auto simp: flow_sidx_eq_def)

lemma sidx_not_none:
  "flow_at_sidx fm x \<noteq> None \<Longrightarrow> x \<noteq> FLOW_SIDX_NONE fm"
  by (auto simp: flow_at_sidx_def FLOW_SIDX_NONE_def)


text \<open>
  C5, amended: take a connection with a valid flow index whose side index is stored in
  exactly one bucket \<open>b\<close> of a table that has an empty bucket, \<open>b\<close> being the bucket
  where \<^verbatim>\<open>tcp_hash_probe()\<close> for the connection ends. Then \<^verbatim>\<open>tcp_hash_insert()\<close> of the
  connection leaves the table as it is; \<^verbatim>\<open>tcp_hash_remove()\<close> returns, with a table of
  the same size that holds the side index in no bucket; and \<^verbatim>\<open>tcp_hash_remove()\<close>
  followed by \<^verbatim>\<open>tcp_hash_insert()\<close> of the same connection gives back the identical table
  exactly when the removal has no entry to move, that is, when every entry between
  \<open>b\<close> and the next empty bucket in probing order has its ideal bucket in the cyclic
  range from its own bucket to \<open>b\<close> (\<open>cluster_fixed\<close>).
\<close>

theorem C5_hash_table:
  assumes len: "length tc = TCP_HASH_TABLE_SIZE (hc_flow_max hc)"
    and conn: "conn < hc_flow_max hc"
    and probe: "tcp_hash_probe hc tc conn = Some b"
    and once: "filter (\<lambda>i. tc ! i = FLOW_SIDX conn TAPSIDE) [0..<length tc] = [b]"
    and empty: "\<exists>x\<in>set tc. flow_at_sidx (hc_flow_max hc) x = None"
  shows "tcp_hash_insert hc tc conn = Some tc
       \<and> (\<exists>tc'. tcp_hash_remove hc tc conn = Some tc' \<and> length tc' = length tc
              \<and> FLOW_SIDX conn TAPSIDE \<notin> set tc')
       \<and> ((Option.bind (tcp_hash_remove hc tc conn) (\<lambda>tc'. tcp_hash_insert hc tc' conn) = Some tc)
            = cluster_fixed hc tc b (mod_sub b 1 (TCP_HASH_TABLE_SIZE (hc_flow_max hc)))
                (length tc))"
proof -
  let ?sz = "TCP_HASH_TABLE_SIZE (hc_flow_max hc)"
  let ?sidx = "FLOW_SIDX conn TAPSIDE"
  let ?h = "unat (tcp_conn_hash hc conn) mod ?sz"
  let ?s = "mod_sub b 1 ?sz"
  have "b \<in> set (filter (\<lambda>i. tc ! i = ?sidx) [0..<length tc])" using once by simp
  then have b: "b < length tc" and stored: "tc ! b = ?sidx" by simp_all
  have uniq: "\<forall>i<length tc. tc ! i = ?sidx \<longrightarrow> i = b"
  proof (intro allI impI)
    fix i assume "i < length tc" and "tc ! i = ?sidx"
    then have "i \<in> set (filter (\<lambda>i. tc ! i = ?sidx) [0..<length tc])" by simp
    with once show "i = b" by simp
  qed
  have valid: "flow_at_sidx (hc_flow_max hc) (tc ! b) = Some conn"
    using stored conn by (simp add: flow_at_sidx_def FLOW_SIDX_def)
  then have valid': "flow_at_sidx (hc_flow_max hc) (tc ! b) \<noteq> None" by simp
  have sidx: "?sidx \<noteq> FLOW_SIDX_NONE (hc_flow_max hc)"
    using valid' stored sidx_not_none by metis
  from probe have pl: "probe_loop hc tc ?sidx ?h = Some b" by (simp add: tcp_hash_probe_def)
  have bsz: "b < ?sz" using b len by simp
  have ssz: "?s < ?sz" using bsz by (simp add: mod_sub_lt)
  have st: "scan_stops hc tc ?s b (length tc)"
    by (rule scan_stops_empty [OF empty valid' b len])
  have rm: "tcp_hash_remove hc tc conn = remove_loop hc tc b ?s"
    using probe valid by (simp add: tcp_hash_remove_def)
  have ins: "tcp_hash_insert hc tc conn = Some tc"
    using probe stored by (simp add: tcp_hash_insert_def) (metis list_update_id)
  from remove_loop_drops [OF st valid' uniq sidx ssz len] obtain T'
    where T': "remove_loop hc tc b ?s = Some T'" "length T' = length tc"
      "\<forall>i<length tc. T' ! i \<noteq> ?sidx" by auto
  have gone: "?sidx \<notin> set T'" using T'(2,3) by (auto simp: in_set_conv_nth)
  have round: "(Option.bind (tcp_hash_remove hc tc conn) (\<lambda>tc'. tcp_hash_insert hc tc' conn)
                  = Some tc) = cluster_fixed hc tc b ?s (length tc)"
  proof (cases "cluster_fixed hc tc b ?s (length tc)")
    case True
    let ?tc' = "tc[b := FLOW_SIDX_NONE (hc_flow_max hc)]"
    from remove_loop_fixed [OF st True] rm
    have r: "tcp_hash_remove hc tc conn = Some ?tc'" by simp
    have "flow_sidx_eq (tc ! b) ?sidx" using stored by (simp add: flow_sidx_eq_def)
    from hash_probe_after_clear [OF pl this b]
    have "tcp_hash_probe hc ?tc' conn = Some b" by (simp add: tcp_hash_probe_def)
    then have "tcp_hash_insert hc ?tc' conn = Some (?tc'[b := ?sidx])"
      by (simp add: tcp_hash_insert_def)
    moreover have "?tc'[b := ?sidx] = tc"
      using stored by (metis list_update_overwrite list_update_id)
    ultimately show ?thesis using r True by simp
  next
    case False
    from remove_loop_shifts [OF st False valid' b ssz len] obtain T2 i
      where T2: "remove_loop hc tc b ?s = Some T2" and ib: "i \<noteq> b" and i: "i < length tc"
        and sh: "T2 ! b = tc ! i" and vi: "flow_at_sidx (hc_flow_max hc) (tc ! i) \<noteq> None"
      by blast
    from T2 T'(1) have eq: "T2 = T'" by simp
    have nb: "T' ! b \<noteq> ?sidx" using T'(3) b by simp
    have nn: "T' ! b \<noteq> FLOW_SIDX_NONE (hc_flow_max hc)"
      using sh vi eq sidx_not_none by metis
    have "tcp_hash_insert hc T' conn \<noteq> Some tc"
    proof (cases "tcp_hash_probe hc T' conn")
      case None
      then show ?thesis by (simp add: tcp_hash_insert_def)
    next
      case (Some p)
      then have "probe_loop hc T' ?sidx ?h = Some p" by (simp add: tcp_hash_probe_def)
      from hash_probe_found [OF this] have "T' ! p = FLOW_SIDX_NONE (hc_flow_max hc) \<or> T' ! p = ?sidx"
        by (simp add: sidx_eq_iff)
      with nb nn have pb: "p \<noteq> b" by auto
      then have "T'[p := ?sidx] ! b = T' ! b" by simp
      with nb stored have "T'[p := ?sidx] \<noteq> tc" by auto
      with Some show ?thesis by (simp add: tcp_hash_insert_def)
    qed
    with rm T'(1) False show ?thesis by simp
  qed
  from ins rm T' gone round show ?thesis by simp
qed


lemma tc_two_small:
  "length tc_two = TCP_HASH_TABLE_SIZE (hc_flow_max hc_small)"
  "(0::nat) < hc_flow_max hc_small"
  "tcp_hash_probe hc_small tc_two 0 = Some 3"
  "filter (\<lambda>i. tc_two ! i = FLOW_SIDX 0 TAPSIDE) [0..<length tc_two] = [3]"
  "\<exists>x\<in>set tc_two. flow_at_sidx (hc_flow_max hc_small) x = None"
  "cluster_fixed hc_small tc_two 3 (mod_sub 3 1 (TCP_HASH_TABLE_SIZE (hc_flow_max hc_small)))
     (length tc_two) = False"
  by code_simp+

lemma tc_two_apart:
  "length tc_two = TCP_HASH_TABLE_SIZE (hc_flow_max hc_apart)"
  "(0::nat) < hc_flow_max hc_apart"
  "tcp_hash_probe hc_apart tc_two 0 = Some 3"
  "\<exists>x\<in>set tc_two. flow_at_sidx (hc_flow_max hc_apart) x = None"
  "cluster_fixed hc_apart tc_two 3 (mod_sub 3 1 (TCP_HASH_TABLE_SIZE (hc_flow_max hc_apart)))
     (length tc_two) = True"
  by code_simp+

theorem C5_hash_table_witness:
  "tcp_hash_insert hc_apart tc_two 0 = Some tc_two
   \<and> tcp_hash_remove hc_apart tc_two 0
       = Some [tc_none, tc_none, FLOW_SIDX 2 TAPSIDE, tc_none, tc_none]
   \<and> Option.bind (tcp_hash_remove hc_apart tc_two 0) (\<lambda>tc'. tcp_hash_insert hc_apart tc' 0)
       = Some tc_two
   \<and> tcp_hash_insert hc_small tc_two 0 = Some tc_two
   \<and> tcp_hash_remove hc_small tc_two 0
       = Some [tc_none, tc_none, tc_none, FLOW_SIDX 2 TAPSIDE, tc_none]
   \<and> Option.bind (tcp_hash_remove hc_small tc_two 0) (\<lambda>tc'. tcp_hash_insert hc_small tc' 0)
       \<noteq> Some tc_two"
proof -
  have r1: "tcp_hash_remove hc_apart tc_two 0
      = Some [tc_none, tc_none, FLOW_SIDX 2 TAPSIDE, tc_none, tc_none]" by code_simp
  have r2: "tcp_hash_remove hc_small tc_two 0
      = Some [tc_none, tc_none, tc_none, FLOW_SIDX 2 TAPSIDE, tc_none]" by code_simp
  have a: "tcp_hash_insert hc_apart tc_two 0 = Some tc_two
     \<and> Option.bind (tcp_hash_remove hc_apart tc_two 0) (\<lambda>tc'. tcp_hash_insert hc_apart tc' 0)
         = Some tc_two"
    using C5_hash_table [of tc_two hc_apart 0 3] tc_two_apart tc_two_small(4) by simp
  have b: "tcp_hash_insert hc_small tc_two 0 = Some tc_two
     \<and> Option.bind (tcp_hash_remove hc_small tc_two 0) (\<lambda>tc'. tcp_hash_insert hc_small tc' 0)
         \<noteq> Some tc_two"
    using C5_hash_table [of tc_two hc_small 0 3] tc_two_small by simp
  from a b r1 r2 show ?thesis by simp
qed

section \<open>Flow table\<close>

text \<open>
  The free list is kept by \<^verbatim>\<open>flow_alloc()\<close>, \<^verbatim>\<open>flow_alloc_cancel()\<close> and
  \<^verbatim>\<open>flow_defer_handler()\<close>. The lemmas below show that each of them keeps \<open>flow_inv\<close>,
  that the loop of the handler ends without a failed \<^verbatim>\<open>ASSERT()\<close>, and that \<open>flow_inv\<close>
  gives the property \<open>free_list_ok\<close>.
\<close>

lemma clusters_ok_bound:
  "clusters_ok tab \<Longrightarrow> is_head tab h \<Longrightarrow> h + free_n (tab ! h) \<le> length tab"
  unfolding clusters_ok_def by blast

lemma clusters_ok_inner:
  "clusters_ok tab \<Longrightarrow> is_head tab h \<Longrightarrow> h < j \<Longrightarrow> j < h + free_n (tab ! h) \<Longrightarrow>
     ftype (tab ! j) = FLOW_TYPE_NONE \<and> free_n (tab ! j) = 0"
  unfolding clusters_ok_def by blast

lemma clusters_ok_cover:
  "clusters_ok tab \<Longrightarrow> j < length tab \<Longrightarrow> ftype (tab ! j) = FLOW_TYPE_NONE \<Longrightarrow>
     free_n (tab ! j) = 0 \<Longrightarrow> \<exists>h<j. is_head tab h \<and> j < h + free_n (tab ! h)"
  unfolding clusters_ok_def by blast

lemma clusters_okI:
  assumes "\<And>h. is_head tab h \<Longrightarrow> h + free_n (tab ! h) \<le> length tab"
    and "\<And>h j. is_head tab h \<Longrightarrow> h < j \<Longrightarrow> j < h + free_n (tab ! h) \<Longrightarrow>
           ftype (tab ! j) = FLOW_TYPE_NONE \<and> free_n (tab ! j) = 0"
    and "\<And>j. j < length tab \<Longrightarrow> ftype (tab ! j) = FLOW_TYPE_NONE \<Longrightarrow> free_n (tab ! j) = 0 \<Longrightarrow>
           \<exists>h<j. is_head tab h \<and> j < h + free_n (tab ! h)"
  shows "clusters_ok tab"
  unfolding clusters_ok_def using assms by blast

lemma chain_ok_first:
  "chain_ok tab ff \<Longrightarrow> ff \<le> length tab"
  "chain_ok tab ff \<Longrightarrow> j < ff \<Longrightarrow> \<not> is_head tab j"
  "chain_ok tab ff \<Longrightarrow> ff < length tab \<Longrightarrow> is_head tab ff"
  unfolding chain_ok_def by blast+

lemma chain_ok_next:
  "chain_ok tab ff \<Longrightarrow> is_head tab h \<Longrightarrow> h < free_next (tab ! h)"
  "chain_ok tab ff \<Longrightarrow> is_head tab h \<Longrightarrow> free_next (tab ! h) \<le> length tab"
  "chain_ok tab ff \<Longrightarrow> is_head tab h \<Longrightarrow> h < j \<Longrightarrow> j < free_next (tab ! h) \<Longrightarrow> \<not> is_head tab j"
  "chain_ok tab ff \<Longrightarrow> is_head tab h \<Longrightarrow> free_next (tab ! h) < length tab \<Longrightarrow>
     is_head tab (free_next (tab ! h))"
  unfolding chain_ok_def by blast+

lemma chain_okI:
  assumes "ff \<le> length tab" "\<And>j. j < ff \<Longrightarrow> \<not> is_head tab j"
    and "ff < length tab \<Longrightarrow> is_head tab ff"
    and "\<And>h. is_head tab h \<Longrightarrow> h < free_next (tab ! h)"
    and "\<And>h. is_head tab h \<Longrightarrow> free_next (tab ! h) \<le> length tab"
    and "\<And>h j. is_head tab h \<Longrightarrow> h < j \<Longrightarrow> j < free_next (tab ! h) \<Longrightarrow> \<not> is_head tab j"
    and "\<And>h. is_head tab h \<Longrightarrow> free_next (tab ! h) < length tab \<Longrightarrow>
           is_head tab (free_next (tab ! h))"
  shows "chain_ok tab ff"
  unfolding chain_ok_def using assms by blast


lemma uwrap_id: "x < 2 ^ 32 \<Longrightarrow> uwrap x = x"
  by (simp add: uwrap_def)

lemma head_next_ge:
  assumes "clusters_ok tab" "chain_ok tab ff" "is_head tab h"
  shows "h + free_n (tab ! h) \<le> free_next (tab ! h)"
proof (rule ccontr)
  assume a: "\<not> ?thesis"
  let ?x = "free_next (tab ! h)"
  have hx: "h < ?x" "?x \<le> length tab" using assms chain_ok_next by blast+
  have bd: "h + free_n (tab ! h) \<le> length tab" using assms clusters_ok_bound by blast
  from a bd hx have "?x < length tab" by simp
  then have "is_head tab ?x" using assms chain_ok_next(4) by blast
  moreover have "free_n (tab ! ?x) = 0" using clusters_ok_inner [OF assms(1,3) hx(1)] a by simp
  ultimately show False by (simp add: is_head_def)
qed

lemma below_ff_occupied:
  assumes "clusters_ok tab" "chain_ok tab ff" "j < ff"
  shows "ftype (tab ! j) \<noteq> FLOW_TYPE_NONE"
proof
  assume a: "ftype (tab ! j) = FLOW_TYPE_NONE"
  have nh: "\<And>i. i < ff \<Longrightarrow> \<not> is_head tab i" using assms(2) chain_ok_first(2) by blast
  have jl: "j < length tab" using assms(2,3) chain_ok_first(1) [of tab ff] by simp
  show False
  proof (cases "free_n (tab ! j) = 0")
    case True
    from clusters_ok_cover [OF assms(1) jl a True] obtain h where "h < j" "is_head tab h" by blast
    with nh [of h] assms(3) show False by simp
  next
    case False
    with a jl have "is_head tab j" by (simp add: is_head_def)
    with nh assms(3) show False by auto
  qed
qed


lemma alloc_one_clusters:
  assumes ck: "clusters_ok tab" and ch: "chain_ok tab ff" and ff: "ff < length tab"
    and n1: "free_n (tab ! ff) = 1" and t: "t \<noteq> FLOW_TYPE_NONE"
    and T: "T = tab[ff := \<lparr>ftype = t, free_n = a, free_next = b\<rparr>]"
  shows "clusters_ok T"
proof -
  have len: "length T = length tab" by (simp add: T)
  have H: "\<And>j. is_head T j \<longleftrightarrow> is_head tab j \<and> j \<noteq> ff"
    using t ff by (auto simp: is_head_def T nth_list_update)
  have N: "\<And>j. j \<noteq> ff \<Longrightarrow> T ! j = tab ! j" by (simp add: T)
  show ?thesis
  proof (rule clusters_okI)
    fix h assume "is_head T h"
    then have h: "is_head tab h" "h \<noteq> ff" by (simp_all add: H)
    from clusters_ok_bound [OF ck h(1)] h(2)
    show "h + free_n (T ! h) \<le> length T" by (simp add: N len)
    fix j assume j: "h < j" "j < h + free_n (T ! h)"
    then have j': "j < h + free_n (tab ! h)" using h by (simp add: N)
    from clusters_ok_inner [OF ck h(1) j(1) j']
    have *: "ftype (tab ! j) = FLOW_TYPE_NONE \<and> free_n (tab ! j) = 0" .
    with n1 have "j \<noteq> ff" by auto
    with * show "ftype (T ! j) = FLOW_TYPE_NONE \<and> free_n (T ! j) = 0" by (simp add: N)
  next
    fix j assume j: "j < length T" "ftype (T ! j) = FLOW_TYPE_NONE" "free_n (T ! j) = 0"
    then have jf: "j \<noteq> ff" using t ff by (auto simp: T)
    with j have "j < length tab" "ftype (tab ! j) = FLOW_TYPE_NONE" "free_n (tab ! j) = 0"
      by (simp_all add: N len)
    from clusters_ok_cover [OF ck this] obtain h
      where h: "h < j" "is_head tab h" "j < h + free_n (tab ! h)" by blast
    have "h \<noteq> ff" using h n1 jf by auto
    with h show "\<exists>h<j. is_head T h \<and> j < h + free_n (T ! h)"
      by (auto simp: H N)
  qed
qed


lemma alloc_one_chain:
  assumes ck: "clusters_ok tab" and ch: "chain_ok tab ff" and ff: "ff < length tab"
    and n1: "free_n (tab ! ff) = 1" and t: "t \<noteq> FLOW_TYPE_NONE"
    and T: "T = tab[ff := \<lparr>ftype = t, free_n = a, free_next = b\<rparr>]"
  shows "chain_ok T (free_next (tab ! ff))"
proof -
  have len: "length T = length tab" by (simp add: T)
  have hd: "is_head tab ff" using ch ff chain_ok_first(3) by blast
  have H: "\<And>j. is_head T j \<longleftrightarrow> is_head tab j \<and> j \<noteq> ff"
    using t ff by (auto simp: is_head_def T nth_list_update)
  have N: "\<And>j. j \<noteq> ff \<Longrightarrow> T ! j = tab ! j" by (simp add: T)
  have gt: "\<And>h. is_head tab h \<Longrightarrow> h \<noteq> ff \<Longrightarrow> ff < h"
    using chain_ok_first(2) [OF ch] by (meson linorder_neqE_nat)
  show ?thesis
  proof (rule chain_okI)
    show "free_next (tab ! ff) \<le> length T" using chain_ok_next(2) [OF ch hd] len by simp
  next
    fix j assume "j < free_next (tab ! ff)"
    then show "\<not> is_head T j"
      using chain_ok_next(3) [OF ch hd, of j] chain_ok_first(2) [OF ch, of j]
      by (cases "j < ff"; cases "j = ff") (auto simp: H)
  next
    assume "free_next (tab ! ff) < length T"
    then show "is_head T (free_next (tab ! ff))"
      using chain_ok_next(4) [OF ch hd] chain_ok_next(1) [OF ch hd] by (simp add: H len)
  next
    fix h assume "is_head T h"
    then have h: "is_head tab h" "h \<noteq> ff" "ff < h" using gt by (auto simp: H)
    show "h < free_next (T ! h)" using chain_ok_next(1) [OF ch h(1)] h by (simp add: N)
    show "free_next (T ! h) \<le> length T" using chain_ok_next(2) [OF ch h(1)] h by (simp add: N len)
    show "is_head T (free_next (T ! h))" if "free_next (T ! h) < length T"
      using that chain_ok_next(4) [OF ch h(1)] chain_ok_next(1) [OF ch h(1)] h
      by (simp add: N len H)
    show "\<not> is_head T j" if "h < j" "j < free_next (T ! h)" for j
      using that chain_ok_next(3) [OF ch h(1), of j] h by (simp add: N H)
  qed
qed


lemma alloc_many_clusters:
  assumes ck: "clusters_ok tab" and ch: "chain_ok tab ff" and ff: "ff < length tab"
    and n2: "1 < free_n (tab ! ff)" and t: "t \<noteq> FLOW_TYPE_NONE"
    and T: "T = tab[Suc ff := (tab ! Suc ff)\<lparr>free_n := free_n (tab ! ff) - 1,
                                             free_next := free_next (tab ! ff)\<rparr>,
                    ff := \<lparr>ftype = t, free_n = a, free_next = b\<rparr>]"
  shows "clusters_ok T"
proof -
  have len: "length T = length tab" by (simp add: T)
  have hd: "is_head tab ff" using ch ff chain_ok_first(3) by blast
  have bd: "ff + free_n (tab ! ff) \<le> length tab" using clusters_ok_bound [OF ck hd] .
  have sf: "Suc ff < length tab" using bd n2 by simp
  have inner: "ftype (tab ! Suc ff) = FLOW_TYPE_NONE \<and> free_n (tab ! Suc ff) = 0"
    using clusters_ok_inner [OF ck hd, of "Suc ff"] n2 by simp
  have nh: "\<not> is_head tab (Suc ff)" using inner by (simp add: is_head_def)
  have H: "\<And>j. is_head T j \<longleftrightarrow> j = Suc ff \<or> (is_head tab j \<and> j \<noteq> ff)"
    using t ff sf inner n2 by (auto simp: is_head_def T nth_list_update)
  have N: "\<And>j. j \<noteq> ff \<Longrightarrow> j \<noteq> Suc ff \<Longrightarrow> T ! j = tab ! j" by (simp add: T)
  have S: "ftype (T ! Suc ff) = FLOW_TYPE_NONE" "free_n (T ! Suc ff) = free_n (tab ! ff) - 1"
    using sf inner by (simp_all add: T)
  have F: "ftype (T ! ff) = t" using ff by (simp add: T)
  have gt: "\<And>h. is_head tab h \<Longrightarrow> h \<noteq> ff \<Longrightarrow> Suc ff < h"
  proof -
    fix h assume h: "is_head tab h" "h \<noteq> ff"
    then have "\<not> h < ff" using chain_ok_first(2) [OF ch] by blast
    moreover have "h \<noteq> Suc ff" using h nh by blast
    ultimately show "Suc ff < h" using h(2) by simp
  qed
  show ?thesis
  proof (rule clusters_okI)
    fix h assume hT: "is_head T h"
    show "h + free_n (T ! h) \<le> length T"
    proof (cases "h = Suc ff")
      case True then show ?thesis using S bd n2 len by simp
    next
      case False
      with hT have h: "is_head tab h" "h \<noteq> ff" by (simp_all add: H)
      from clusters_ok_bound [OF ck h(1)] h(2) False show ?thesis by (simp add: N len)
    qed
    fix j assume j: "h < j" "j < h + free_n (T ! h)"
    show "ftype (T ! j) = FLOW_TYPE_NONE \<and> free_n (T ! j) = 0"
    proof (cases "h = Suc ff")
      case True
      with j S have "ff < j" "j < ff + free_n (tab ! ff)" "j \<noteq> ff" "j \<noteq> Suc ff" by simp_all
      with clusters_ok_inner [OF ck hd, of j] show ?thesis by (simp add: N)
    next
      case False
      with hT have h: "is_head tab h" "h \<noteq> ff" by (simp_all add: H)
      from gt [OF h] j have jn: "j \<noteq> ff" "j \<noteq> Suc ff" by simp_all
      from j have "j < h + free_n (tab ! h)" using h False by (simp add: N)
      from clusters_ok_inner [OF ck h(1) j(1) this] jn show ?thesis by (simp add: N)
    qed
  next
    fix j assume j: "j < length T" "ftype (T ! j) = FLOW_TYPE_NONE" "free_n (T ! j) = 0"
    have jf: "j \<noteq> ff" using j F t by auto
    have js: "j \<noteq> Suc ff" using j S n2 by auto
    with jf j have "j < length tab" "ftype (tab ! j) = FLOW_TYPE_NONE" "free_n (tab ! j) = 0"
      by (simp_all add: N len)
    from clusters_ok_cover [OF ck this] obtain h
      where h: "h < j" "is_head tab h" "j < h + free_n (tab ! h)" by blast
    show "\<exists>h<j. is_head T h \<and> j < h + free_n (T ! h)"
    proof (cases "h = ff")
      case True
      with h jf js have "Suc ff < j" "j < Suc ff + free_n (T ! Suc ff)" using S by simp_all
      then show ?thesis using H by blast
    next
      case False
      from gt [OF h(2) False] have "h \<noteq> Suc ff" by simp
      with False h have "is_head T h" "T ! h = tab ! h" by (simp_all add: H N)
      with h show ?thesis by auto
    qed
  qed
qed

lemma alloc_many_chain:
  assumes ck: "clusters_ok tab" and ch: "chain_ok tab ff" and ff: "ff < length tab"
    and n2: "1 < free_n (tab ! ff)" and t: "t \<noteq> FLOW_TYPE_NONE"
    and T: "T = tab[Suc ff := (tab ! Suc ff)\<lparr>free_n := free_n (tab ! ff) - 1,
                                             free_next := free_next (tab ! ff)\<rparr>,
                    ff := \<lparr>ftype = t, free_n = a, free_next = b\<rparr>]"
  shows "chain_ok T (Suc ff)"
proof -
  have len: "length T = length tab" by (simp add: T)
  have hd: "is_head tab ff" using ch ff chain_ok_first(3) by blast
  have bd: "ff + free_n (tab ! ff) \<le> length tab" using clusters_ok_bound [OF ck hd] .
  have sf: "Suc ff < length tab" using bd n2 by simp
  have inner: "ftype (tab ! Suc ff) = FLOW_TYPE_NONE \<and> free_n (tab ! Suc ff) = 0"
    using clusters_ok_inner [OF ck hd, of "Suc ff"] n2 by simp
  have nh: "\<not> is_head tab (Suc ff)" using inner by (simp add: is_head_def)
  have H: "\<And>j. is_head T j \<longleftrightarrow> j = Suc ff \<or> (is_head tab j \<and> j \<noteq> ff)"
    using t ff sf inner n2 by (auto simp: is_head_def T nth_list_update)
  have N: "\<And>j. j \<noteq> ff \<Longrightarrow> j \<noteq> Suc ff \<Longrightarrow> T ! j = tab ! j" by (simp add: T)
  have S: "free_next (T ! Suc ff) = free_next (tab ! ff)" using sf by (simp add: T)
  have gt: "\<And>h. is_head tab h \<Longrightarrow> h \<noteq> ff \<Longrightarrow> Suc ff < h"
  proof -
    fix h assume h: "is_head tab h" "h \<noteq> ff"
    then have "\<not> h < ff" using chain_ok_first(2) [OF ch] by blast
    moreover have "h \<noteq> Suc ff" using h nh by blast
    ultimately show "Suc ff < h" using h(2) by simp
  qed
  have nx: "ff + free_n (tab ! ff) \<le> free_next (tab ! ff)" using head_next_ge [OF ck ch hd] .
  show ?thesis
  proof (rule chain_okI)
    show "Suc ff \<le> length T" using sf len by simp
  next
    fix j assume "j < Suc ff"
    then show "\<not> is_head T j"
      using chain_ok_first(2) [OF ch, of j] by (cases "j < ff") (auto simp: H)
  next
    show "is_head T (Suc ff)" by (simp add: H)
  next
    fix h assume hT: "is_head T h"
    show "h < free_next (T ! h)"
    proof (cases "h = Suc ff")
      case True then show ?thesis using S nx n2 by simp
    next
      case False
      with hT have h: "is_head tab h" "h \<noteq> ff" by (simp_all add: H)
      then show ?thesis using chain_ok_next(1) [OF ch h(1)] False by (simp add: N)
    qed
    show "free_next (T ! h) \<le> length T"
    proof (cases "h = Suc ff")
      case True then show ?thesis using S chain_ok_next(2) [OF ch hd] len by simp
    next
      case False
      with hT have h: "is_head tab h" "h \<noteq> ff" by (simp_all add: H)
      then show ?thesis using chain_ok_next(2) [OF ch h(1)] False by (simp add: N len)
    qed
    show "is_head T (free_next (T ! h))" if lt: "free_next (T ! h) < length T"
    proof (cases "h = Suc ff")
      case True
      then show ?thesis
        using lt S chain_ok_next(4) [OF ch hd] chain_ok_next(1) [OF ch hd] by (simp add: H len)
    next
      case False
      with hT have h: "is_head tab h" "h \<noteq> ff" by (simp_all add: H)
      then show ?thesis
        using lt chain_ok_next(4) [OF ch h(1)] chain_ok_next(1) [OF ch h(1)] gt [OF h] False
        by (simp add: N len H)
    qed
    show "\<not> is_head T j" if "h < j" "j < free_next (T ! h)" for j
    proof (cases "h = Suc ff")
      case True
      then show ?thesis using that S chain_ok_next(3) [OF ch hd, of j] by (simp add: H)
    next
      case False
      with hT have h: "is_head tab h" "h \<noteq> ff" by (simp_all add: H)
      then show ?thesis
        using that chain_ok_next(3) [OF ch h(1), of j] gt [OF h] False by (simp add: N H)
    qed
  qed
qed


lemma is_head_cong:
  "length T = length tab \<Longrightarrow> j < length tab \<longrightarrow> ftype (T ! j) = ftype (tab ! j) \<and> free_n (T ! j) = free_n (tab ! j)
     \<Longrightarrow> is_head T j = is_head tab j"
  by (auto simp: is_head_def)

lemma clusters_ok_mono:
  assumes ck: "clusters_ok tab" and len: "length T = length tab"
    and eq: "\<And>j. j < length tab \<Longrightarrow> ftype (T ! j) = ftype (tab ! j) \<and> free_n (T ! j) = free_n (tab ! j)"
  shows "clusters_ok T"
proof -
  have H: "\<And>j. is_head T j = is_head tab j" using is_head_cong [OF len] eq by blast
  have hl: "\<And>h. is_head tab h \<Longrightarrow> h < length tab" by (simp add: is_head_def)
  show ?thesis
  proof (rule clusters_okI)
    fix h assume "is_head T h"
    then have h: "is_head tab h" by (simp add: H)
    show "h + free_n (T ! h) \<le> length T"
      using clusters_ok_bound [OF ck h] eq [OF hl [OF h]] len by simp
    fix j assume j: "h < j" "j < h + free_n (T ! h)"
    then have j': "j < h + free_n (tab ! h)" using eq [OF hl [OF h]] by simp
    then have "j < length tab" using clusters_ok_bound [OF ck h] by simp
    with clusters_ok_inner [OF ck h j(1) j'] eq [of j]
    show "ftype (T ! j) = FLOW_TYPE_NONE \<and> free_n (T ! j) = 0" by simp
  next
    fix j assume j: "j < length T" "ftype (T ! j) = FLOW_TYPE_NONE" "free_n (T ! j) = 0"
    then have "j < length tab" "ftype (tab ! j) = FLOW_TYPE_NONE" "free_n (tab ! j) = 0"
      using eq [of j] len by simp_all
    from clusters_ok_cover [OF ck this] obtain h
      where h: "h < j" "is_head tab h" "j < h + free_n (tab ! h)" by blast
    then show "\<exists>h<j. is_head T h \<and> j < h + free_n (T ! h)"
      using eq [OF hl [OF h(2)]] H by auto
  qed
qed

lemma make_head_clusters:
  assumes ck: "clusters_ok tab" and idx: "idx < length tab"
    and occ: "ftype (tab ! idx) \<noteq> FLOW_TYPE_NONE"
    and T: "T = tab[idx := \<lparr>ftype = FLOW_TYPE_NONE, free_n = 1, free_next = x\<rparr>]"
  shows "clusters_ok T"
proof -
  have len: "length T = length tab" by (simp add: T)
  have H: "\<And>j. is_head T j \<longleftrightarrow> j = idx \<or> is_head tab j"
    using occ idx by (auto simp: is_head_def T nth_list_update)
  have N: "\<And>j. j \<noteq> idx \<Longrightarrow> T ! j = tab ! j" by (simp add: T)
  have I: "free_n (T ! idx) = 1" using idx by (simp add: T)
  have nh: "\<not> is_head tab idx" using occ by (simp add: is_head_def)
  show ?thesis
  proof (rule clusters_okI)
    fix h assume hT: "is_head T h"
    show "h + free_n (T ! h) \<le> length T"
    proof (cases "h = idx")
      case True then show ?thesis using I idx len by simp
    next
      case False
      with hT have "is_head tab h" by (simp add: H)
      from clusters_ok_bound [OF ck this] False show ?thesis by (simp add: N len)
    qed
    fix j assume j: "h < j" "j < h + free_n (T ! h)"
    show "ftype (T ! j) = FLOW_TYPE_NONE \<and> free_n (T ! j) = 0"
    proof (cases "h = idx")
      case True then show ?thesis using j I by simp
    next
      case False
      with hT have h: "is_head tab h" by (simp add: H)
      from j False have "j < h + free_n (tab ! h)" by (simp add: N)
      from clusters_ok_inner [OF ck h j(1) this] occ have *: "j \<noteq> idx"
        "ftype (tab ! j) = FLOW_TYPE_NONE \<and> free_n (tab ! j) = 0" by auto
      then show ?thesis by (simp add: N)
    qed
  next
    fix j assume j: "j < length T" "ftype (T ! j) = FLOW_TYPE_NONE" "free_n (T ! j) = 0"
    then have ji: "j \<noteq> idx" using I by auto
    with j have "j < length tab" "ftype (tab ! j) = FLOW_TYPE_NONE" "free_n (tab ! j) = 0"
      by (simp_all add: N len)
    from clusters_ok_cover [OF ck this] obtain h
      where h: "h < j" "is_head tab h" "j < h + free_n (tab ! h)" by blast
    with nh have "h \<noteq> idx" by blast
    with h show "\<exists>h<j. is_head T h \<and> j < h + free_n (T ! h)" by (auto simp: H N)
  qed
qed

lemma cancel_chain:
  assumes ck: "clusters_ok tab" and ch: "chain_ok tab ff" and idx: "idx < ff"
    and T: "T = tab[idx := \<lparr>ftype = FLOW_TYPE_NONE, free_n = 1, free_next = ff\<rparr>]"
  shows "chain_ok T idx"
proof -
  have len: "length T = length tab" by (simp add: T)
  have il: "idx < length tab" using idx chain_ok_first(1) [OF ch] by simp
  have occ: "ftype (tab ! idx) \<noteq> FLOW_TYPE_NONE" using below_ff_occupied [OF ck ch idx] .
  have H: "\<And>j. is_head T j \<longleftrightarrow> j = idx \<or> is_head tab j"
    using occ il by (auto simp: is_head_def T nth_list_update)
  have N: "\<And>j. j \<noteq> idx \<Longrightarrow> T ! j = tab ! j" by (simp add: T)
  have I: "free_next (T ! idx) = ff" using il by (simp add: T)
  have ge: "\<And>h. is_head tab h \<Longrightarrow> ff \<le> h"
    using chain_ok_first(2) [OF ch] by (meson not_le_imp_less)
  show ?thesis
  proof (rule chain_okI)
    show "idx \<le> length T" using il len by simp
  next
    fix j assume "j < idx"
    then show "\<not> is_head T j" using chain_ok_first(2) [OF ch, of j] idx by (simp add: H)
  next
    show "is_head T idx" by (simp add: H)
  next
    fix h assume hT: "is_head T h"
    show "h < free_next (T ! h)"
    proof (cases "h = idx")
      case True then show ?thesis using I idx by simp
    next
      case False
      with hT have h: "is_head tab h" by (simp add: H)
      then show ?thesis using chain_ok_next(1) [OF ch h] False by (simp add: N)
    qed
    show "free_next (T ! h) \<le> length T"
    proof (cases "h = idx")
      case True then show ?thesis using I chain_ok_first(1) [OF ch] len by simp
    next
      case False
      with hT have h: "is_head tab h" by (simp add: H)
      then show ?thesis using chain_ok_next(2) [OF ch h] False by (simp add: N len)
    qed
    show "is_head T (free_next (T ! h))" if lt: "free_next (T ! h) < length T"
    proof (cases "h = idx")
      case True
      then show ?thesis using lt I chain_ok_first(3) [OF ch] by (simp add: H len)
    next
      case False
      with hT have h: "is_head tab h" by (simp add: H)
      then show ?thesis using lt chain_ok_next(4) [OF ch h] False by (simp add: N len H)
    qed
    show "\<not> is_head T j" if "h < j" "j < free_next (T ! h)" for j
    proof (cases "h = idx")
      case True
      then show ?thesis using that I chain_ok_first(2) [OF ch, of j] by (simp add: H)
    next
      case False
      with hT have h: "is_head tab h" by (simp add: H)
      from ge [OF h] idx that have "j \<noteq> idx" by simp
      then show ?thesis using that chain_ok_next(3) [OF ch h, of j] False by (simp add: N H)
    qed
  qed
qed

lemma write_chain:
  assumes ck: "clusters_ok tab" and ch: "chain_ok tab ff" and idx: "idx < length tab"
    and occ: "ftype (tab ! idx) \<noteq> FLOW_TYPE_NONE"
    and T: "T = tab[idx := (tab ! idx)\<lparr>free_n := a, free_next := b\<rparr>]"
  shows "chain_ok T ff"
proof -
  have len: "length T = length tab" by (simp add: T)
  have H: "\<And>j. is_head T j \<longleftrightarrow> is_head tab j"
    using occ idx by (auto simp: is_head_def T nth_list_update)
  have N: "\<And>j. j \<noteq> idx \<Longrightarrow> T ! j = tab ! j" by (simp add: T)
  have nh: "\<And>h. is_head tab h \<Longrightarrow> h \<noteq> idx" using occ by (auto simp: is_head_def)
  show ?thesis
  proof (rule chain_okI)
    show "ff \<le> length T" using chain_ok_first(1) [OF ch] len by simp
  next
    fix j assume "j < ff"
    then show "\<not> is_head T j" using chain_ok_first(2) [OF ch, of j] by (simp add: H)
  next
    assume "ff < length T"
    then show "is_head T ff" using chain_ok_first(3) [OF ch] by (simp add: H len)
  next
    fix h assume hT: "is_head T h"
    then have h: "is_head tab h" "h \<noteq> idx" using nh by (simp_all add: H)
    show "h < free_next (T ! h)" using chain_ok_next(1) [OF ch h(1)] h by (simp add: N)
    show "free_next (T ! h) \<le> length T" using chain_ok_next(2) [OF ch h(1)] h by (simp add: N len)
    show "is_head T (free_next (T ! h))" if "free_next (T ! h) < length T"
      using that chain_ok_next(4) [OF ch h(1)] h by (simp add: N len H)
    show "\<not> is_head T j" if "h < j" "j < free_next (T ! h)" for j
      using that chain_ok_next(3) [OF ch h(1), of j] h by (simp add: N H)
  qed
qed

lemma write_clusters:
  assumes ck: "clusters_ok tab" and idx: "idx < length tab"
    and occ: "ftype (tab ! idx) \<noteq> FLOW_TYPE_NONE"
    and T: "T = tab[idx := (tab ! idx)\<lparr>free_n := a, free_next := b\<rparr>]"
  shows "clusters_ok T"
proof -
  have len: "length T = length tab" by (simp add: T)
  have H: "\<And>j. is_head T j \<longleftrightarrow> is_head tab j"
    using occ idx by (auto simp: is_head_def T nth_list_update)
  have N: "\<And>j. j \<noteq> idx \<Longrightarrow> T ! j = tab ! j" by (simp add: T)
  have I: "ftype (T ! idx) = ftype (tab ! idx)" using idx by (simp add: T)
  have nh: "\<And>h. is_head tab h \<Longrightarrow> h \<noteq> idx" using occ by (auto simp: is_head_def)
  show ?thesis
  proof (rule clusters_okI)
    fix h assume hT: "is_head T h"
    then have h: "is_head tab h" "h \<noteq> idx" using nh by (simp_all add: H)
    show "h + free_n (T ! h) \<le> length T" using clusters_ok_bound [OF ck h(1)] h by (simp add: N len)
    fix j assume j: "h < j" "j < h + free_n (T ! h)"
    then have "j < h + free_n (tab ! h)" using h by (simp add: N)
    from clusters_ok_inner [OF ck h(1) j(1) this] occ have *: "j \<noteq> idx"
      "ftype (tab ! j) = FLOW_TYPE_NONE \<and> free_n (tab ! j) = 0" by auto
    then show "ftype (T ! j) = FLOW_TYPE_NONE \<and> free_n (T ! j) = 0" by (simp add: N)
  next
    fix j assume j: "j < length T" "ftype (T ! j) = FLOW_TYPE_NONE" "free_n (T ! j) = 0"
    then have ji: "j \<noteq> idx" using I occ by auto
    with j have "j < length tab" "ftype (tab ! j) = FLOW_TYPE_NONE" "free_n (tab ! j) = 0"
      by (simp_all add: N len)
    from clusters_ok_cover [OF ck this] obtain h
      where h: "h < j" "is_head tab h" "j < h + free_n (tab ! h)" by blast
    with nh have "h \<noteq> idx" by blast
    with h show "\<exists>h<j. is_head T h \<and> j < h + free_n (T ! h)" by (auto simp: H N)
  qed
qed


lemma is_head_less: "is_head tab h \<Longrightarrow> h < length tab"
  by (simp add: is_head_def)

lemma defer_head_at:
  assumes ck: "clusters_ok tab" and pb: "pre_bound tab idx" and idx: "idx < length tab"
    and ty: "ftype (tab ! idx) = FLOW_TYPE_NONE"
  shows "is_head tab idx"
proof (rule ccontr)
  assume "\<not> is_head tab idx"
  with idx ty have "free_n (tab ! idx) = 0" by (simp add: is_head_def)
  from clusters_ok_cover [OF ck idx ty this] obtain h
    where h: "h < idx" "is_head tab h" "idx < h + free_n (tab ! h)" by blast
  with pb show False unfolding pre_bound_def by fastforce
qed

lemma prefix_agree:
  assumes len: "length T = length tab"
    and eq: "\<And>j. j < idx \<Longrightarrow> T ! j = tab ! j"
  shows "pre_bound tab idx \<Longrightarrow> pre_bound T idx"
    and "pre_last tab ff ln idx \<Longrightarrow> pre_last T ff ln idx"
    and "pre_links tab ln idx \<Longrightarrow> pre_links T ln idx"
    and "pre_head tab fh ln idx \<Longrightarrow> pre_head T fh ln idx"
proof -
  have H: "\<And>j. j < idx \<Longrightarrow> is_head T j = is_head tab j"
    using eq len by (simp add: is_head_def)
  show "pre_bound tab idx \<Longrightarrow> pre_bound T idx"
    unfolding pre_bound_def by (simp add: H eq)
  show "pre_last tab ff ln idx \<Longrightarrow> pre_last T ff ln idx"
    unfolding pre_last_def by (cases ln) (simp_all add: H)
  show "pre_links T ln idx" if pk: "pre_links tab ln idx"
    unfolding pre_links_def
  proof (intro allI impI)
    fix h assume h: "h < idx" "is_head T h \<and> ln \<noteq> Some h"
    then have "is_head tab h \<and> ln \<noteq> Some h" by (simp add: H)
    with pk h(1) have *: "h < free_next (tab ! h)" "free_next (tab ! h) < idx"
      "is_head tab (free_next (tab ! h))"
      "\<forall>j. h < j \<and> j < free_next (tab ! h) \<longrightarrow> \<not> is_head tab j"
      unfolding pre_links_def by blast+
    have "\<not> is_head T j" if "h < j" "j < free_next (tab ! h)" for j
    proof -
      from that *(2) have "j < idx" by simp
      with * that show ?thesis by (simp add: H)
    qed
    with * show "h < free_next (T ! h) \<and> free_next (T ! h) < idx \<and>
        is_head T (free_next (T ! h)) \<and>
        (\<forall>j. h < j \<and> j < free_next (T ! h) \<longrightarrow> \<not> is_head T j)"
      by (simp add: eq [OF h(1)] H)
  qed
  show "pre_head tab fh ln idx \<Longrightarrow> pre_head T fh ln idx"
    unfolding pre_head_def by (cases fh) (auto simp: eq)
qed

lemma step_skip:
  assumes occ: "ftype (tab ! idx) \<noteq> FLOW_TYPE_NONE"
    and pb: "pre_bound tab idx" and pl: "pre_last tab ff ln idx" and pk: "pre_links tab ln idx"
  shows "pre_bound tab (Suc idx)" and "pre_last tab ff ln (Suc idx)"
    and "pre_links tab ln (Suc idx)" and "pre_head tab None ln (Suc idx)"
proof -
  have nh: "\<not> is_head tab idx" using occ by (simp add: is_head_def)
  have lt: "\<And>h. is_head tab h \<Longrightarrow> h < Suc idx \<Longrightarrow> h < idx"
    using nh by (metis less_SucE)
  show "pre_bound tab (Suc idx)"
    unfolding pre_bound_def using pb lt by (fastforce simp: pre_bound_def)
  show "pre_last tab ff ln (Suc idx)"
    using pl nh unfolding pre_last_def
    by (auto split: option.splits simp: less_Suc_eq)
  show "pre_links tab ln (Suc idx)"
    unfolding pre_links_def
  proof (intro allI impI)
    fix h assume "h < Suc idx" "is_head tab h \<and> ln \<noteq> Some h"
    then have "h < idx" "is_head tab h \<and> ln \<noteq> Some h" using lt by auto
    with pk show "h < free_next (tab ! h) \<and> free_next (tab ! h) < Suc idx \<and>
        is_head tab (free_next (tab ! h)) \<and>
        (\<forall>j. h < j \<and> j < free_next (tab ! h) \<longrightarrow> \<not> is_head tab j)"
      unfolding pre_links_def by (simp add: less_Suc_eq)
  qed
  show "pre_head tab None ln (Suc idx)" by (simp add: pre_head_def)
qed


lemma step_new:
  assumes ck: "clusters_ok tab" and pb: "pre_bound tab idx" and pl: "pre_last tab ff ln idx"
    and pk: "pre_links tab ln idx" and hd: "is_head tab idx"
    and len: "length T = length tab"
    and eq: "\<And>j. j < length tab \<Longrightarrow>
               ftype (T ! j) = ftype (tab ! j) \<and> free_n (T ! j) = free_n (tab ! j)"
    and nxeq: "\<And>j. ln \<noteq> Some j \<Longrightarrow> free_next (T ! j) = free_next (tab ! j)"
    and nxl: "\<And>l. ln = Some l \<Longrightarrow> free_next (T ! l) = idx"
    and ffn: "ff' = (case ln of None \<Rightarrow> idx | Some l \<Rightarrow> ff)"
    and idx': "idx' = idx + free_n (tab ! idx)"
  shows "clusters_ok T" and "pre_bound T idx'" and "pre_last T ff' (Some idx) idx'"
    and "pre_links T (Some idx) idx'" and "pre_head T (Some idx) (Some idx) idx'"
proof -
  have H: "\<And>j. is_head T j = is_head tab j" using is_head_cong [OF len] eq by blast
  show "clusters_ok T" using clusters_ok_mono [OF ck len eq] .
  have il: "idx < length tab" using hd by (rule is_head_less)
  have n: "free_n (T ! idx) = free_n (tab ! idx)" "1 \<le> free_n (tab ! idx)"
    using eq [OF il] hd by (simp_all add: is_head_def)
  have inner: "\<not> is_head tab j" if "idx < j" "j < idx'" for j
    using clusters_ok_inner [OF ck hd that(1)] that(2) idx' by (simp add: is_head_def)
  have below: "h < idx" if "is_head tab h" "h < idx'" "h \<noteq> idx" for h
    using that inner [of h] by (meson linorder_neqE_nat)
  show "pre_bound T idx'"
    unfolding pre_bound_def
  proof (intro allI impI)
    fix h assume h: "h < idx'" "is_head T h"
    then have ht: "is_head tab h" by (simp add: H)
    show "h + free_n (T ! h) \<le> idx'"
    proof (cases "h = idx")
      case True then show ?thesis using n idx' by simp
    next
      case False
      from below [OF ht h(1) False] pb ht have "h + free_n (tab ! h) \<le> idx"
        unfolding pre_bound_def by blast
      then show ?thesis using eq [OF is_head_less [OF ht]] idx' by simp
    qed
  qed
  show "pre_last T ff' (Some idx) idx'"
  proof (cases ln)
    case None
    with pl have "\<forall>j<idx. \<not> is_head tab j" by (simp add: pre_last_def)
    then show ?thesis using None ffn hd n idx' inner by (simp add: pre_last_def H)
  next
    case (Some l)
    with pl have "l < idx" "ff \<le> l" "is_head tab ff" "\<forall>j<ff. \<not> is_head tab j"
      by (simp_all add: pre_last_def)
    then show ?thesis using Some ffn hd n idx' inner by (simp add: pre_last_def H)
  qed
  show "pre_links T (Some idx) idx'"
    unfolding pre_links_def
  proof (intro allI impI)
    fix h assume h: "h < idx'" "is_head T h \<and> Some idx \<noteq> Some h"
    then have ht: "is_head tab h" and hi: "h \<noteq> idx" by (auto simp: H)
    have hlt: "h < idx" using below [OF ht h(1) hi] .
    show "h < free_next (T ! h) \<and> free_next (T ! h) < idx' \<and> is_head T (free_next (T ! h)) \<and>
        (\<forall>j. h < j \<and> j < free_next (T ! h) \<longrightarrow> \<not> is_head T j)"
    proof (cases "ln = Some h")
      case True
      with pl have "\<forall>j. h < j \<and> j < idx \<longrightarrow> \<not> is_head tab j" by (simp add: pre_last_def)
      then show ?thesis using nxl [OF True] hlt hd n idx' by (simp add: H)
    next
      case False
      with pk hlt ht have "h < free_next (tab ! h)" "free_next (tab ! h) < idx"
        "is_head tab (free_next (tab ! h))"
        "\<forall>j. h < j \<and> j < free_next (tab ! h) \<longrightarrow> \<not> is_head tab j"
        unfolding pre_links_def by blast+
      then show ?thesis using nxeq [OF False] idx' by (simp add: H)
    qed
  qed
  show "pre_head T (Some idx) (Some idx) idx'"
    using n idx' by (simp add: pre_head_def)
qed

lemma step_merge:
  assumes ck: "clusters_ok tab" and pb: "pre_bound tab idx" and pl: "pre_last tab ff ln idx"
    and pk: "pre_links tab ln idx" and ph: "pre_head tab (Some h0) ln idx"
    and hd: "is_head tab idx"
    and T: "T = tab[h0 := (tab ! h0)\<lparr>free_n := free_n (tab ! h0) + free_n (tab ! idx)\<rparr>,
                    idx := (tab ! idx)\<lparr>free_n := 0, free_next := 0\<rparr>]"
    and idx': "idx' = idx + free_n (tab ! idx)"
  shows "clusters_ok T" and "pre_bound T idx'" and "pre_last T ff ln idx'"
    and "pre_links T ln idx'" and "pre_head T (Some h0) ln idx'"
proof -
  have len: "length T = length tab" by (simp add: T)
  have il: "idx < length tab" using hd by (rule is_head_less)
  have ln: "ln = Some h0" and h0: "h0 < idx" and h0n: "h0 + free_n (tab ! h0) = idx"
    using ph by (simp_all add: pre_head_def)
  have h0l: "h0 < length tab" using h0 il by simp
  have pl': "is_head tab h0" "\<forall>j. h0 < j \<and> j < idx \<longrightarrow> \<not> is_head tab j"
    "ff \<le> h0" "is_head tab ff" "\<forall>j<ff. \<not> is_head tab j"
    using pl ln by (simp_all add: pre_last_def)
  have n: "1 \<le> free_n (tab ! idx)" "ftype (tab ! idx) = FLOW_TYPE_NONE"
    using hd by (simp_all add: is_head_def)
  have N: "\<And>j. j \<noteq> h0 \<Longrightarrow> j \<noteq> idx \<Longrightarrow> T ! j = tab ! j" by (simp add: T)
  have I: "ftype (T ! idx) = FLOW_TYPE_NONE" "free_n (T ! idx) = 0"
    using il h0 n by (simp_all add: T)
  have Z: "ftype (T ! h0) = ftype (tab ! h0)"
    "free_n (T ! h0) = free_n (tab ! h0) + free_n (tab ! idx)"
    "free_next (T ! h0) = free_next (tab ! h0)"
    using h0l h0 by (simp_all add: T)
  have H: "\<And>j. is_head T j \<longleftrightarrow> is_head tab j \<and> j \<noteq> idx"
  proof -
    fix j show "is_head T j \<longleftrightarrow> is_head tab j \<and> j \<noteq> idx"
    proof (cases "j = idx")
      case True then show ?thesis using I by (simp add: is_head_def)
    next
      case ji: False
      show ?thesis
      proof (cases "j = h0")
        case True then show ?thesis using Z pl'(1) ji h0l len by (simp add: is_head_def)
      next
        case False then show ?thesis using ji N len by (simp add: is_head_def)
      qed
    qed
  qed
  have inner: "ftype (tab ! j) = FLOW_TYPE_NONE \<and> free_n (tab ! j) = 0"
    if "idx < j" "j < idx'" for j
    using clusters_ok_inner [OF ck hd that(1)] that(2) idx' by simp
  have inner0: "ftype (tab ! j) = FLOW_TYPE_NONE \<and> free_n (tab ! j) = 0"
    if "h0 < j" "j < idx" for j
    using clusters_ok_inner [OF ck pl'(1) that(1)] that(2) h0n by simp
  have below: "h < idx" if "is_head T h" "h < idx'" for h
  proof -
    from that have ht: "is_head tab h" "h \<noteq> idx" by (simp_all add: H)
    have "\<not> idx < h" using inner [of h] that(2) ht(1) by (auto simp: is_head_def)
    with ht show ?thesis by simp
  qed
  show "clusters_ok T"
  proof (rule clusters_okI)
    fix h assume hT: "is_head T h"
    then have ht: "is_head tab h" "h \<noteq> idx" by (simp_all add: H)
    show "h + free_n (T ! h) \<le> length T"
    proof (cases "h = h0")
      case True
      then show ?thesis using Z h0n clusters_ok_bound [OF ck hd] len by simp
    next
      case False
      then show ?thesis using clusters_ok_bound [OF ck ht(1)] ht(2) by (simp add: N len)
    qed
    fix j assume j: "h < j" "j < h + free_n (T ! h)"
    show "ftype (T ! j) = FLOW_TYPE_NONE \<and> free_n (T ! j) = 0"
    proof (cases "h = h0")
      case True
      with j Z h0n idx' have jr: "h0 < j" "j < idx'" by simp_all
      show ?thesis
      proof (cases "j = idx")
        case True then show ?thesis using I by simp
      next
        case False
        then have "j < idx \<or> idx < j" by auto
        then show ?thesis using inner0 [OF jr(1)] inner [OF _ jr(2)] jr(1) False
          by (auto simp: N)
      qed
    next
      case False
      with j ht have "j < h + free_n (tab ! h)" by (simp add: N)
      from clusters_ok_inner [OF ck ht(1) j(1) this]
      have *: "ftype (tab ! j) = FLOW_TYPE_NONE \<and> free_n (tab ! j) = 0" .
      with n pl'(1) have "j \<noteq> idx" "j \<noteq> h0" by (auto simp: is_head_def)
      with * show ?thesis by (simp add: N)
    qed
  next
    fix j assume j: "j < length T" "ftype (T ! j) = FLOW_TYPE_NONE" "free_n (T ! j) = 0"
    show "\<exists>h<j. is_head T h \<and> j < h + free_n (T ! h)"
    proof (cases "j = idx")
      case True
      have "is_head T h0" using pl'(1) h0 by (simp add: H)
      then show ?thesis using True h0 Z h0n n by (intro exI [of _ h0]) simp
    next
      case ji: False
      have jh: "j \<noteq> h0" using j Z pl'(1) by (auto simp: is_head_def)
      with j ji have "j < length tab" "ftype (tab ! j) = FLOW_TYPE_NONE" "free_n (tab ! j) = 0"
        by (simp_all add: N len)
      from clusters_ok_cover [OF ck this] obtain h
        where h: "h < j" "is_head tab h" "j < h + free_n (tab ! h)" by blast
      show ?thesis
      proof (cases "h = idx \<or> h = h0")
        case True
        have "is_head T h0" using pl'(1) h0 by (simp add: H)
        moreover have "h0 < j" using True h h0 by auto
        moreover have "j < h0 + free_n (T ! h0)" using True h Z h0n by auto
        ultimately show ?thesis by blast
      next
        case False
        with h have "is_head T h" "T ! h = tab ! h" by (simp_all add: H N)
        with h show ?thesis by auto
      qed
    qed
  qed
  show "pre_bound T idx'"
    unfolding pre_bound_def
  proof (intro allI impI)
    fix h assume h: "h < idx'" "is_head T h"
    then have ht: "is_head tab h" "h \<noteq> idx" by (simp_all add: H)
    have hlt: "h < idx" using below [OF h(2) h(1)] .
    show "h + free_n (T ! h) \<le> idx'"
    proof (cases "h = h0")
      case True then show ?thesis using Z h0n idx' by simp
    next
      case False
      from pb hlt ht have "h + free_n (tab ! h) \<le> idx" unfolding pre_bound_def by blast
      then show ?thesis using False ht idx' by (simp add: N)
    qed
  qed
  show "pre_last T ff ln idx'"
  proof -
    have "\<not> is_head T j" if "h0 < j" "j < idx'" for j
      using below [of j] that pl'(2) by (auto simp: H)
    moreover have "h0 < idx'" using h0 idx' by simp
    moreover have "is_head T h0" "is_head T ff" using pl' h0 by (simp_all add: H)
    moreover have "\<forall>j<ff. \<not> is_head T j" using pl'(5) by (simp add: H)
    ultimately show ?thesis using ln pl'(3) by (simp add: pre_last_def)
  qed
  show "pre_links T ln idx'"
    unfolding pre_links_def
  proof (intro allI impI)
    fix h assume h: "h < idx'" "is_head T h \<and> ln \<noteq> Some h"
    then have ht: "is_head tab h" "h \<noteq> idx" "h \<noteq> h0" using ln by (auto simp: H)
    have hlt: "h < idx" using below [of h] h by simp
    from pk hlt ht h have *: "h < free_next (tab ! h)" "free_next (tab ! h) < idx"
      "is_head tab (free_next (tab ! h))"
      "\<forall>j. h < j \<and> j < free_next (tab ! h) \<longrightarrow> \<not> is_head tab j"
      unfolding pre_links_def by blast+
    then show "h < free_next (T ! h) \<and> free_next (T ! h) < idx' \<and> is_head T (free_next (T ! h)) \<and>
        (\<forall>j. h < j \<and> j < free_next (T ! h) \<longrightarrow> \<not> is_head T j)"
      using ht idx' by (simp add: N H)
  qed
  show "pre_head T (Some h0) ln idx'"
    using ln h0 Z h0n idx' by (simp add: pre_head_def)
qed


lemma defer_final:
  assumes ck: "clusters_ok tab" and pl: "pre_last tab ff ln (length tab)"
    and pk: "pre_links tab ln (length tab)"
    and T: "T = (case ln of None \<Rightarrow> tab | Some l \<Rightarrow> tab[l := (tab ! l)\<lparr>free_next := length tab\<rparr>])"
    and ff': "ff' = (case ln of None \<Rightarrow> length tab | Some l \<Rightarrow> ff)"
  shows "clusters_ok T \<and> chain_ok T ff'"
proof (cases ln)
  case None
  then have nh: "\<And>j. \<not> is_head tab j" using pl is_head_less by (auto simp: pre_last_def)
  have "chain_ok tab (length tab)" by (rule chain_okI) (simp_all add: nh)
  then show ?thesis using None T ff' ck by simp
next
  case (Some l)
  have len: "length T = length tab" using T Some by simp
  from pl Some have l: "l < length tab" "is_head tab l"
    "\<forall>j. l < j \<and> j < length tab \<longrightarrow> \<not> is_head tab j"
    "ff \<le> l" "is_head tab ff" "\<forall>j<ff. \<not> is_head tab j"
    by (simp_all add: pre_last_def)
  have N: "\<And>j. j \<noteq> l \<Longrightarrow> T ! j = tab ! j" using T Some by simp
  have I: "ftype (T ! l) = ftype (tab ! l)" "free_n (T ! l) = free_n (tab ! l)"
    "free_next (T ! l) = length tab"
    using T Some l(1) by simp_all
  have eq: "\<And>j. j < length tab \<Longrightarrow>
      ftype (T ! j) = ftype (tab ! j) \<and> free_n (T ! j) = free_n (tab ! j)"
    using N I by metis
  have H: "\<And>j. is_head T j = is_head tab j" using is_head_cong [OF len] eq by blast
  have c1: "clusters_ok T" using clusters_ok_mono [OF ck len eq] .
  have c2: "chain_ok T ff"
  proof (rule chain_okI)
    show "ff \<le> length T" using l len by simp
  next
    fix j assume "j < ff" then show "\<not> is_head T j" using l by (simp add: H)
  next
    show "is_head T ff" using l by (simp add: H)
  next
    fix h assume hT: "is_head T h"
    then have ht: "is_head tab h" by (simp add: H)
    have links: "h < free_next (tab ! h) \<and> free_next (tab ! h) < length tab \<and>
        is_head tab (free_next (tab ! h)) \<and>
        (\<forall>j. h < j \<and> j < free_next (tab ! h) \<longrightarrow> \<not> is_head tab j)" if "h \<noteq> l"
      using pk ht is_head_less [OF ht] that Some unfolding pre_links_def by blast
    show "h < free_next (T ! h)"
      using links I l(1) by (cases "h = l") (simp_all add: N)
    show "free_next (T ! h) \<le> length T"
      using links I len by (cases "h = l") (simp_all add: N)
    show "is_head T (free_next (T ! h))" if "free_next (T ! h) < length T"
      using that links I len by (cases "h = l") (simp_all add: N H)
    show "\<not> is_head T j" if "h < j" "j < free_next (T ! h)" for j
      using that links I l(3) by (cases "h = l") (simp_all add: N H)
  qed
  from c1 c2 Some ff' show ?thesis by simp
qed

lemma flowtab_set_next [simp]:
  "flowtab (set_next ln v s) =
     (case ln of None \<Rightarrow> flowtab s | Some l \<Rightarrow> (flowtab s)[l := (flowtab s ! l)\<lparr>free_next := v\<rparr>])"
  "flow_first_free (set_next ln v s) = (case ln of None \<Rightarrow> v | Some l \<Rightarrow> flow_first_free s)"
  by (simp_all add: set_next_def split: option.splits)

lemma flowtab_set_n [simp]:
  "flowtab (set_n h v s) = (flowtab s)[h := (flowtab s ! h)\<lparr>free_n := v\<rparr>]"
  "flow_first_free (set_n h v s) = flow_first_free s"
  by (simp_all add: set_n_def)

lemma flowtab_clear_free [simp]:
  "flowtab (clear_free idx s) = (flowtab s)[idx := (flowtab s ! idx)\<lparr>free_n := 0, free_next := 0\<rparr>]"
  "flow_first_free (clear_free idx s) = flow_first_free s"
  by (simp_all add: clear_free_def)

lemma flowtab_flow_end [simp]:
  "idx < length (flowtab s) \<Longrightarrow>
     flowtab (flow_end idx s) = (flowtab s)[idx := (flowtab s ! idx)\<lparr>ftype := FLOW_TYPE_NONE\<rparr>]"
  "flow_first_free (flow_end idx s) = flow_first_free s"
proof -
  show "flow_first_free (flow_end idx s) = flow_first_free s" by (simp add: flow_end_def)
  assume "idx < length (flowtab s)"
  have "(flowtab s ! idx)\<lparr>ftype := FLOW_TYPE_NONE\<rparr> = flowtab s ! idx"
    if "ftype (flowtab s ! idx) = FLOW_TYPE_NONE"
    using that by (cases "flowtab s ! idx") simp
  then have "(flowtab s)[idx := (flowtab s ! idx)\<lparr>ftype := FLOW_TYPE_NONE\<rparr>] = flowtab s"
    if "ftype (flowtab s ! idx) = FLOW_TYPE_NONE"
    using that by (simp only: list_update_id)
  then show "flowtab (flow_end idx s) =
      (flowtab s)[idx := (flowtab s ! idx)\<lparr>ftype := FLOW_TYPE_NONE\<rparr>]"
    by (simp add: flow_end_def)
qed

lemma length_set_next [simp]: "length (flowtab (set_next ln v s)) = length (flowtab s)"
  by (simp split: option.splits)

lemma defer_inv_final:
  assumes "defer_inv fh ln idx s" "\<not> idx < FLOW_MAX s"
  shows "flow_inv (set_next ln (FLOW_MAX s) s)"
proof -
  from assms have idx: "idx = length (flowtab s)" by (simp add: defer_inv_def FLOW_MAX_def)
  from assms(1) have *: "length (flowtab s) < 2 ^ 32" "clusters_ok (flowtab s)"
    "pre_last (flowtab s) (flow_first_free s) ln (length (flowtab s))"
    "pre_links (flowtab s) ln (length (flowtab s))"
    unfolding defer_inv_def idx by simp_all
  from defer_final [OF *(2,3,4) refl refl] *(1)
  show ?thesis by (cases ln) (simp_all add: flow_inv_def FLOW_MAX_def)
qed


lemma step_new_state:
  assumes di: "defer_inv None ln idx s" and hd: "is_head (flowtab s) idx"
  shows "defer_inv (Some idx) (Some idx) (idx + free_n (flowtab s ! idx)) (set_next ln idx s)"
proof -
  let ?tab = "flowtab s"
  let ?T = "flowtab (set_next ln idx s)"
  from di have inv: "length ?tab < 2 ^ 32" "idx \<le> length ?tab" "clusters_ok ?tab"
    "pre_bound ?tab idx" "pre_last ?tab (flow_first_free s) ln idx" "pre_links ?tab ln idx"
    by (simp_all add: defer_inv_def)
  have ll: "l < length ?tab" if "ln = Some l" for l
    using inv(5) that is_head_less by (simp add: pre_last_def)
  have len: "length ?T = length ?tab" by (cases ln) simp_all
  have eq: "ftype (?T ! j) = ftype (?tab ! j) \<and> free_n (?T ! j) = free_n (?tab ! j)"
    if j: "j < length ?tab" for j
  proof (cases ln)
    case None then show ?thesis by simp
  next
    case (Some a) then show ?thesis using j by (cases "a = j") simp_all
  qed
  have nxeq: "\<And>j. ln \<noteq> Some j \<Longrightarrow> free_next (?T ! j) = free_next (?tab ! j)"
    by (cases ln) simp_all
  have nxl: "\<And>l. ln = Some l \<Longrightarrow> free_next (?T ! l) = idx"
    using ll by simp
  have ffn: "flow_first_free (set_next ln idx s) =
      (case ln of None \<Rightarrow> idx | Some l \<Rightarrow> flow_first_free s)" by simp
  note st = step_new [OF inv(3,4,5,6) hd len eq nxeq nxl ffn refl]
  have "idx + free_n (?tab ! idx) \<le> length ?tab" using clusters_ok_bound [OF inv(3) hd] .
  with st inv(1) show ?thesis unfolding defer_inv_def len by blast
qed

lemma step_merge_state:
  assumes di: "defer_inv (Some h0) ln idx s" and hd: "is_head (flowtab s) idx"
  shows "defer_inv (Some h0) ln (idx + free_n (flowtab s ! idx))
           (clear_free idx (set_n h0 (free_n (flowtab s ! h0) + free_n (flowtab s ! idx)) s))"
proof -
  let ?tab = "flowtab s"
  let ?s' = "clear_free idx (set_n h0 (free_n (flowtab s ! h0) + free_n (flowtab s ! idx)) s)"
  from di have inv: "length ?tab < 2 ^ 32" "idx \<le> length ?tab" "clusters_ok ?tab"
    "pre_bound ?tab idx" "pre_last ?tab (flow_first_free s) ln idx" "pre_links ?tab ln idx"
    "pre_head ?tab (Some h0) ln idx"
    by (simp_all add: defer_inv_def)
  have h0: "h0 \<noteq> idx" using inv(7) by (simp add: pre_head_def)
  have T: "flowtab ?s' = ?tab[h0 := (?tab ! h0)\<lparr>free_n := free_n (?tab ! h0) + free_n (?tab ! idx)\<rparr>,
        idx := (?tab ! idx)\<lparr>free_n := 0, free_next := 0\<rparr>]"
    using h0 by simp
  have len: "length (flowtab ?s') = length ?tab" by simp
  have ff: "flow_first_free ?s' = flow_first_free s" by simp
  note st = step_merge [OF inv(3,4,5,6,7) hd T refl]
  have "idx + free_n (?tab ! idx) \<le> length ?tab" using clusters_ok_bound [OF inv(3) hd] .
  with st inv(1) show ?thesis unfolding defer_inv_def len ff by blast
qed

lemma make_head_state:
  assumes di: "defer_inv fh ln idx s" and il: "idx < length (flowtab s)"
    and occ: "ftype (flowtab s ! idx) \<noteq> FLOW_TYPE_NONE"
  shows "defer_inv fh ln idx (set_n idx 1 (flow_end idx s))"
    and "is_head (flowtab (set_n idx 1 (flow_end idx s))) idx"
    and "free_n (flowtab (set_n idx 1 (flow_end idx s)) ! idx) = 1"
proof -
  let ?tab = "flowtab s"
  let ?s' = "set_n idx 1 (flow_end idx s)"
  from di have inv: "length ?tab < 2 ^ 32" "idx \<le> length ?tab" "clusters_ok ?tab"
    "pre_bound ?tab idx" "pre_last ?tab (flow_first_free s) ln idx" "pre_links ?tab ln idx"
    "pre_head ?tab fh ln idx"
    by (simp_all add: defer_inv_def)
  have R: "(?tab ! idx)\<lparr>ftype := FLOW_TYPE_NONE, free_n := Suc 0\<rparr> =
      \<lparr>ftype = FLOW_TYPE_NONE, free_n = Suc 0, free_next = free_next (?tab ! idx)\<rparr>"
    by (cases "?tab ! idx") simp
  have T: "flowtab ?s' = ?tab[idx := \<lparr>ftype = FLOW_TYPE_NONE, free_n = 1,
                                      free_next = free_next (?tab ! idx)\<rparr>]"
    using il by (simp add: R)
  have len: "length (flowtab ?s') = length ?tab" using il by simp
  have ff: "flow_first_free ?s' = flow_first_free s" by simp
  have agree: "\<And>j. j < idx \<Longrightarrow> flowtab ?s' ! j = ?tab ! j" unfolding T by simp
  have p1: "pre_bound (flowtab ?s') idx"
    by (rule prefix_agree(1) [OF len _ inv(4)]) (rule agree)
  have p2: "pre_last (flowtab ?s') (flow_first_free s) ln idx"
    by (rule prefix_agree(2) [OF len _ inv(5)]) (rule agree)
  have p3: "pre_links (flowtab ?s') ln idx"
    by (rule prefix_agree(3) [OF len _ inv(6)]) (rule agree)
  have p4: "pre_head (flowtab ?s') fh ln idx"
    by (rule prefix_agree(4) [OF len _ inv(7)]) (rule agree)
  have "clusters_ok (flowtab ?s')" using make_head_clusters [OF inv(3) il occ T] .
  with p1 p2 p3 p4 inv(1,2)
  show "defer_inv fh ln idx ?s'" unfolding defer_inv_def len ff by blast
  show "is_head (flowtab ?s') idx" unfolding T using il by (simp add: is_head_def)
  show "free_n (flowtab ?s' ! idx) = 1" unfolding T using il by simp
qed

lemma step_skip_state:
  assumes di: "defer_inv fh ln idx s" and il: "idx < length (flowtab s)"
    and occ: "ftype (flowtab s ! idx) \<noteq> FLOW_TYPE_NONE"
  shows "defer_inv None ln (Suc idx) s"
proof -
  from di have inv: "length (flowtab s) < 2 ^ 32" "clusters_ok (flowtab s)"
    "pre_bound (flowtab s) idx" "pre_last (flowtab s) (flow_first_free s) ln idx"
    "pre_links (flowtab s) ln idx"
    by (simp_all add: defer_inv_def)
  from step_skip [OF occ inv(3,4,5)] inv(1,2) il show ?thesis
    unfolding defer_inv_def by simp
qed


lemma flow_closed_none [simp]: "\<not> flow_closed e FLOW_TYPE_NONE idx"
  by (simp add: flow_closed_def)

lemma defer_loop_ok:
  assumes "defer_inv fh ln idx s"
  shows "\<exists>s'. flow_defer_loop e fh ln idx s = Some (Inr s') \<and> flow_inv s' \<and>
              length (flowtab s') = length (flowtab s)"
  using assms
proof (induction "length (flowtab s) - idx" arbitrary: fh ln idx s rule: less_induct)
  case less
  let ?tab = "flowtab s"
  let ?L = "length ?tab"
  note di = less.prems
  from di have inv: "?L < 2 ^ 32" "idx \<le> ?L" "clusters_ok ?tab" "pre_bound ?tab idx"
    "pre_head ?tab fh ln idx"
    by (simp_all add: defer_inv_def)
  show ?case
  proof (cases "idx < ?L")
    case False
    then have "flow_defer_loop e fh ln idx s = Some (Inr (set_next ln (FLOW_MAX s) s))"
      by (subst flow_defer_loop.simps) (simp add: FLOW_MAX_def)
    moreover have "flow_inv (set_next ln (FLOW_MAX s) s)"
      using defer_inv_final [OF di] False by (simp add: FLOW_MAX_def)
    ultimately show ?thesis by (simp del: flowtab_set_next)
  next
    case il: True
    show ?thesis
    proof (cases "ftype (?tab ! idx) = FLOW_TYPE_NONE")
      case True
      have hd: "is_head ?tab idx" using defer_head_at [OF inv(3,4) il True] .
      let ?n = "free_n (?tab ! idx)"
      have n: "1 \<le> ?n" "idx + ?n \<le> ?L"
        using hd clusters_ok_bound [OF inv(3) hd] by (simp_all add: is_head_def)
      have u: "uwrap (uwrap (idx + (?n - 1)) + 1) = idx + ?n"
        using n inv(1) by (simp add: uwrap_id)
      show ?thesis
      proof (cases fh)
        case None
        let ?s' = "set_next ln idx s"
        have step: "flow_defer_loop e fh ln idx s =
            flow_defer_loop e (Some idx) (Some idx) (idx + ?n) ?s'"
          using il True n None u
          by (subst flow_defer_loop.simps) (simp add: FLOW_MAX_def Let_def del: flowtab_set_next)
        have "defer_inv (Some idx) (Some idx) (idx + ?n) ?s'"
          using step_new_state [OF _ hd] di None by simp
        moreover have "length (flowtab ?s') - (idx + ?n) < ?L - idx"
          using il n by (simp del: flowtab_set_next)
        ultimately show ?thesis
          using less.hyps [of ?s' "idx + ?n" "Some idx" "Some idx"] step
          by (simp del: flowtab_set_next)
      next
        case (Some h0)
        have h0: "h0 < idx" "h0 + free_n (?tab ! h0) = idx"
          using inv(5) Some by (simp_all add: pre_head_def)
        have u2: "uwrap (free_n (?tab ! h0) + ?n) = free_n (?tab ! h0) + ?n"
          using h0 n inv(1) by (simp add: uwrap_id)
        let ?s' = "clear_free idx (set_n h0 (free_n (?tab ! h0) + ?n) s)"
        have step: "flow_defer_loop e fh ln idx s =
            flow_defer_loop e (Some h0) ln (idx + ?n) ?s'"
          using il True n Some u u2
          by (subst flow_defer_loop.simps)
            (simp add: FLOW_MAX_def Let_def del: flowtab_clear_free flowtab_set_n)
        have "defer_inv (Some h0) ln (idx + ?n) ?s'"
          using step_merge_state [OF _ hd] di Some by simp
        moreover have "length (flowtab ?s') - (idx + ?n) < ?L - idx"
          using il n by simp
        ultimately show ?thesis
          using less.hyps [of ?s' "idx + ?n" "Some h0" ln] step by simp
      qed
    next
      case occ: False
      have u: "uwrap (idx + 1) = Suc idx" using il inv(1) by (simp add: uwrap_id)
      show ?thesis
      proof (cases "flow_closed e (ftype (?tab ! idx)) idx")
        case False
        have step: "flow_defer_loop e fh ln idx s = flow_defer_loop e None ln (Suc idx) s"
          using il occ False u
          by (subst flow_defer_loop.simps) (simp add: FLOW_MAX_def Let_def)
        have "defer_inv None ln (Suc idx) s" using step_skip_state [OF di il occ] .
        moreover have "?L - Suc idx < ?L - idx" using il by simp
        ultimately show ?thesis using less.hyps [of s "Suc idx" None ln] step by simp
      next
        case closed: True
        let ?s2 = "set_n idx 1 (flow_end idx s)"
        note mh = make_head_state [OF di il occ]
        have len2: "length (flowtab ?s2) = ?L" using il by simp
        show ?thesis
        proof (cases fh)
          case None
          let ?s' = "set_next ln idx ?s2"
          have step: "flow_defer_loop e fh ln idx s =
              flow_defer_loop e (Some idx) (Some idx) (Suc idx) ?s'"
            using il occ closed None u
            by (subst flow_defer_loop.simps)
              (simp add: FLOW_MAX_def Let_def
                   del: flowtab_set_next flowtab_set_n flowtab_flow_end)
          have "defer_inv (Some idx) (Some idx) (idx + free_n (flowtab ?s2 ! idx)) ?s'"
            using step_new_state [OF _ mh(2)] mh(1) None by simp
          then have "defer_inv (Some idx) (Some idx) (Suc idx) ?s'"
            unfolding mh(3) by simp
          moreover have "length (flowtab ?s') - Suc idx < ?L - idx"
            using il len2 by (simp del: flowtab_set_next flowtab_set_n flowtab_flow_end)
          moreover have "length (flowtab ?s') = ?L"
            using len2 by (simp del: flowtab_set_next flowtab_set_n flowtab_flow_end)
          ultimately show ?thesis
            using less.hyps [of ?s' "Suc idx" "Some idx" "Some idx"] step
            by (simp del: flowtab_set_next flowtab_set_n flowtab_flow_end)
        next
          case (Some h0)
          have h0: "h0 < idx" "h0 + free_n (?tab ! h0) = idx"
            using inv(5) Some by (simp_all add: pre_head_def)
          let ?s1 = "flow_end idx s"
          have n1: "free_n (flowtab ?s1 ! h0) = free_n (?tab ! h0)"
            using il h0 by simp
          have u1: "uwrap (h0 + free_n (?tab ! h0)) = idx" using h0 il inv(1) by (simp add: uwrap_id)
          have u2: "uwrap (free_n (?tab ! h0) + 1) = free_n (?tab ! h0) + 1"
            using h0 il inv(1) by (simp add: uwrap_id)
          let ?s' = "clear_free idx (set_n h0 (free_n (?tab ! h0) + 1) ?s1)"
          have step: "flow_defer_loop e fh ln idx s =
              flow_defer_loop e (Some h0) ln (Suc idx) ?s'"
            using il occ closed Some u n1 u1 u2
            by (subst flow_defer_loop.simps)
              (simp add: FLOW_MAX_def Let_def
                   del: flowtab_clear_free flowtab_set_n flowtab_flow_end)
          let ?s'' = "clear_free idx
              (set_n h0 (free_n (flowtab ?s2 ! h0) + free_n (flowtab ?s2 ! idx)) ?s2)"
          have "defer_inv (Some h0) ln (idx + free_n (flowtab ?s2 ! idx)) ?s''"
            using step_merge_state [OF _ mh(2)] mh(1) Some by simp
          then have d: "defer_inv (Some h0) ln (Suc idx) ?s''"
            unfolding mh(3) by simp
          have "flowtab ?s'' = flowtab ?s'"
            using il h0 by (intro nth_equalityI) (auto simp: nth_list_update)
          moreover have "flow_first_free ?s'' = flow_first_free ?s'" by simp
          ultimately have "?s'' = ?s'" by simp
          with d have "defer_inv (Some h0) ln (Suc idx) ?s'" by simp
          moreover have "length (flowtab ?s') - Suc idx < ?L - idx" using il by simp
          moreover have "length (flowtab ?s') = ?L" using il by simp
          ultimately show ?thesis
            using less.hyps [of ?s' "Suc idx" "Some h0" ln] step by simp
        qed
      qed
    qed
  qed
qed

lemma flow_defer_handler_ok:
  assumes "flow_inv s"
  shows "\<exists>s'. flow_defer_handler e s = Some (Inr s') \<and> flow_inv s' \<and>
              length (flowtab s') = length (flowtab s)"
proof -
  from assms have "defer_inv None None 0 s"
    by (simp add: flow_inv_def defer_inv_def pre_bound_def pre_last_def pre_links_def pre_head_def)
  from defer_loop_ok [OF this] show ?thesis by (simp add: flow_defer_handler_def)
qed


lemma free_chain_inv:
  assumes ck: "clusters_ok tab" and ch: "chain_ok tab ff"
    and nx: "nx \<le> length tab" and hd: "nx < length tab \<longrightarrow> is_head tab nx"
  shows "\<exists>hs. free_chain tab nx = Some hs \<and> sorted_wrt (<) hs \<and>
           (\<forall>h\<in>set hs. nx \<le> h \<and> is_head tab h) \<and>
           sum_list (map (\<lambda>h. free_n (tab ! h)) hs) +
             card {j. nx \<le> j \<and> j < length tab \<and> ftype (tab ! j) \<noteq> FLOW_TYPE_NONE}
           = length tab - nx"
  using nx hd
proof (induction "length tab - nx" arbitrary: nx rule: less_induct)
  case less
  show ?case
  proof (cases "nx = length tab")
    case True
    then have "free_chain tab nx = Some []" by (subst free_chain.simps) simp
    moreover have "{j. nx \<le> j \<and> j < length tab \<and> ftype (tab ! j) \<noteq> FLOW_TYPE_NONE} = {}"
      using True by auto
    ultimately show ?thesis using True by simp
  next
    case False
    with less.prems have lt: "nx < length tab" and h: "is_head tab nx" by simp_all
    let ?x = "free_next (tab ! nx)"
    let ?n = "free_n (tab ! nx)"
    have x: "nx < ?x" "?x \<le> length tab" "?x < length tab \<longrightarrow> is_head tab ?x"
      using chain_ok_next(1,2,4) [OF ch h] by simp_all
    have nn: "1 \<le> ?n" "nx + ?n \<le> ?x" "ftype (tab ! nx) = FLOW_TYPE_NONE"
      using h head_next_ge [OF ck ch h] by (simp_all add: is_head_def)
    have m: "length tab - ?x < length tab - nx" using x lt by simp
    from less.hyps [OF m x(2) x(3)] obtain hs where hs: "free_chain tab ?x = Some hs"
      "sorted_wrt (<) hs" "\<forall>h\<in>set hs. ?x \<le> h \<and> is_head tab h"
      "sum_list (map (\<lambda>h. free_n (tab ! h)) hs) +
         card {j. ?x \<le> j \<and> j < length tab \<and> ftype (tab ! j) \<noteq> FLOW_TYPE_NONE}
       = length tab - ?x"
      by blast
    have fc: "free_chain tab nx = Some (nx # hs)"
      using lt x hs(1) by (subst free_chain.simps) simp
    have f1: "ftype (tab ! j) = FLOW_TYPE_NONE" if "nx \<le> j" "j < nx + ?n" for j
      using that nn(3) clusters_ok_inner [OF ck h, of j] by (cases "j = nx") simp_all
    have f2: "ftype (tab ! j) \<noteq> FLOW_TYPE_NONE" if j: "nx + ?n \<le> j" "j < ?x" for j
    proof
      assume ty: "ftype (tab ! j) = FLOW_TYPE_NONE"
      have jl: "j < length tab" using j x by simp
      have nj: "nx < j" using j nn by simp
      have "\<not> is_head tab j" using chain_ok_next(3) [OF ch h nj j(2)] .
      with ty jl have "free_n (tab ! j) = 0" by (simp add: is_head_def)
      from clusters_ok_cover [OF ck jl ty this] obtain h'
        where h': "h' < j" "is_head tab h'" "j < h' + free_n (tab ! h')" by blast
      have "\<not> nx < h'" using chain_ok_next(3) [OF ch h, of h'] h' j by auto
      moreover have "h' \<noteq> nx" using h' j by auto
      ultimately have "h' < nx" by simp
      with clusters_ok_inner [OF ck h'(2), of nx] h' nj nn show False by simp
    qed
    let ?A = "{j. nx \<le> j \<and> j < length tab \<and> ftype (tab ! j) \<noteq> FLOW_TYPE_NONE}"
    let ?C = "{j. ?x \<le> j \<and> j < length tab \<and> ftype (tab ! j) \<noteq> FLOW_TYPE_NONE}"
    have "?A = {nx + ?n ..< ?x} \<union> ?C"
    proof (rule set_eqI)
      fix j
      show "j \<in> ?A \<longleftrightarrow> j \<in> {nx + ?n ..< ?x} \<union> ?C"
      proof (cases "j < nx + ?n")
        case True
        have "ftype (tab ! j) = FLOW_TYPE_NONE" if "nx \<le> j" using f1 [OF that True] .
        then show ?thesis using True nn by auto
      next
        case False
        show ?thesis
        proof (cases "j < ?x")
          case True
          have "ftype (tab ! j) \<noteq> FLOW_TYPE_NONE" using f2 [OF _ True] False by simp
          then show ?thesis using True False x by simp
        next
          case False
          then show ?thesis using x by auto
        qed
      qed
    qed
    moreover have "{nx + ?n ..< ?x} \<inter> ?C = {}" by auto
    moreover have "finite ?C" by simp
    ultimately have "card ?A = (?x - (nx + ?n)) + card ?C"
      by (simp add: card_Un_disjoint)
    with hs(4) nn x have "sum_list (map (\<lambda>h. free_n (tab ! h)) (nx # hs)) + card ?A
        = length tab - nx" by simp
    moreover have "sorted_wrt (<) (nx # hs)" using hs(2,3) x by auto
    moreover have "\<forall>h'\<in>set (nx # hs). nx \<le> h' \<and> is_head tab h'" using hs(3) x h by auto
    ultimately show ?thesis using fc by blast
  qed
qed

lemma flow_inv_free_list_ok:
  assumes "flow_inv s"
  shows "free_list_ok s"
proof -
  let ?tab = "flowtab s" and ?ff = "flow_first_free s"
  from assms have ck: "clusters_ok ?tab" and ch: "chain_ok ?tab ?ff"
    by (simp_all add: flow_inv_def)
  from free_chain_inv [OF ck ch chain_ok_first(1) [OF ch]] chain_ok_first(3) [OF ch]
  obtain hs where hs: "free_chain ?tab ?ff = Some hs" "sorted_wrt (<) hs"
    "\<forall>h\<in>set hs. ?ff \<le> h \<and> is_head ?tab h"
    "sum_list (map (\<lambda>h. free_n (?tab ! h)) hs) +
       card {j. ?ff \<le> j \<and> j < length ?tab \<and> ftype (?tab ! j) \<noteq> FLOW_TYPE_NONE}
     = length ?tab - ?ff"
    by blast
  let ?A = "{j. ?ff \<le> j \<and> j < length ?tab \<and> ftype (?tab ! j) \<noteq> FLOW_TYPE_NONE}"
  let ?O = "{j. j < length ?tab \<and> ftype (?tab ! j) \<noteq> FLOW_TYPE_NONE}"
  have ffl: "?ff \<le> length ?tab" using chain_ok_first(1) [OF ch] .
  have "?O = {0 ..< ?ff} \<union> ?A"
  proof (rule set_eqI)
    fix j
    show "j \<in> ?O \<longleftrightarrow> j \<in> {0 ..< ?ff} \<union> ?A"
      using below_ff_occupied [OF ck ch, of j] ffl by (cases "j < ?ff") auto
  qed
  moreover have "{0 ..< ?ff} \<inter> ?A = {}" by auto
  moreover have "finite ?A" by simp
  ultimately have "card ?O = ?ff + card ?A" by (simp add: card_Un_disjoint)
  moreover have "length (filter (\<lambda>fl. ftype fl \<noteq> FLOW_TYPE_NONE) ?tab) = card ?O"
    by (simp add: length_filter_conv_card)
  ultimately have sum: "sum_list (map (\<lambda>h. free_n (?tab ! h)) hs) +
      length (filter (\<lambda>fl. ftype fl \<noteq> FLOW_TYPE_NONE) ?tab) = length ?tab"
    using hs(4) ffl by simp
  have heads: "\<forall>h\<in>set hs. ftype (?tab ! h) = FLOW_TYPE_NONE \<and> 1 \<le> free_n (?tab ! h) \<and>
      h + free_n (?tab ! h) \<le> length ?tab"
  proof
    fix h assume "h \<in> set hs"
    with hs(3) have h: "is_head ?tab h" by blast
    from clusters_ok_bound [OF ck h] h
    show "ftype (?tab ! h) = FLOW_TYPE_NONE \<and> 1 \<le> free_n (?tab ! h) \<and>
      h + free_n (?tab ! h) \<le> length ?tab" by (simp add: is_head_def)
  qed
  show ?thesis
    unfolding free_list_ok_def using hs(1,2) heads sum
    by (simp add: FLOW_MAX_def free_total_def flow_active_def)
qed


lemma flow_alloc_full:
  "length (flowtab s) \<le> flow_first_free s \<Longrightarrow> flow_alloc s = Inr (None, s)"
  by (simp add: flow_alloc_def FLOW_MAX_def)

lemma flow_alloc_start:
  assumes inv: "flow_inv s" and ff: "flow_first_free s < length (flowtab s)"
    and t: "t \<noteq> FLOW_TYPE_NONE"
  shows "\<exists>s'. flow_alloc s = Inr (Some (flow_first_free s), s') \<and>
              flow_inv (flow_start (flow_first_free s) t s') \<and>
              flow_first_free s < flow_first_free s' \<and>
              ftype (flowtab s' ! flow_first_free s) = FLOW_TYPE_NONE \<and>
              flow_first_free s < length (flowtab s')"
proof -
  let ?tab = "flowtab s" and ?ff = "flow_first_free s"
  let ?n = "free_n (?tab ! ?ff)" and ?x = "free_next (?tab ! ?ff)"
  from inv have L: "length ?tab < 2 ^ 32" and ck: "clusters_ok ?tab" and ch: "chain_ok ?tab ?ff"
    by (simp_all add: flow_inv_def)
  have hd: "is_head ?tab ?ff" using chain_ok_first(3) [OF ch ff] .
  then have ty: "ftype (?tab ! ?ff) = FLOW_TYPE_NONE" and n1: "1 \<le> ?n"
    by (simp_all add: is_head_def)
  have bd: "?ff + ?n \<le> length ?tab" using clusters_ok_bound [OF ck hd] .
  have u: "uwrap (?ff + ?n) = ?ff + ?n" using bd L by (simp add: uwrap_id)
  have x: "?ff < ?x" using chain_ok_next(1) [OF ch hd] .
  show ?thesis
  proof (cases "1 < ?n")
    case False
    with n1 have n: "?n = 1" by simp
    let ?s' = "\<lparr>flowtab = ?tab[?ff := flow_zero], flow_first_free = ?x\<rparr>"
    let ?T = "?tab[?ff := \<lparr>ftype = t, free_n = 0, free_next = 0\<rparr>]"
    have a: "flow_alloc s = Inr (Some ?ff, ?s')"
      using ff ty n u bd by (simp add: flow_alloc_def FLOW_MAX_def Let_def)
    have T: "flowtab (flow_start ?ff t ?s') = ?T"
      using ff by (simp add: flow_start_def flow_zero_def)
    have "clusters_ok ?T" using alloc_one_clusters [OF ck ch ff n t refl] .
    moreover have "chain_ok ?T ?x" using alloc_one_chain [OF ck ch ff n t refl] .
    ultimately have "flow_inv (flow_start ?ff t ?s')"
      using L unfolding flow_inv_def T by (simp add: flow_start_def)
    with a x ff show ?thesis by (simp add: flow_zero_def)
  next
    case True
    have sf: "Suc ?ff < length ?tab" using bd True by simp
    have inner: "ftype (?tab ! Suc ?ff) = FLOW_TYPE_NONE \<and> free_n (?tab ! Suc ?ff) = 0"
      using clusters_ok_inner [OF ck hd, of "Suc ?ff"] True by simp
    have u1: "uwrap (Suc ?ff) = Suc ?ff" using sf L by (simp add: uwrap_id)
    let ?tab1 = "?tab[Suc ?ff := (?tab ! Suc ?ff)\<lparr>free_n := ?n - 1, free_next := ?x\<rparr>]"
    let ?s' = "\<lparr>flowtab = ?tab1[?ff := flow_zero], flow_first_free = Suc ?ff\<rparr>"
    let ?T = "?tab1[?ff := \<lparr>ftype = t, free_n = 0, free_next = 0\<rparr>]"
    have a: "flow_alloc s = Inr (Some ?ff, ?s')"
      using ff ty True u bd sf inner u1
      by (simp add: flow_alloc_def FLOW_MAX_def Let_def)
    have T: "flowtab (flow_start ?ff t ?s') = ?T"
      using ff by (simp add: flow_start_def flow_zero_def)
    have "clusters_ok ?T" using alloc_many_clusters [OF ck ch ff True t refl] .
    moreover have "chain_ok ?T (Suc ?ff)" using alloc_many_chain [OF ck ch ff True t refl] .
    ultimately have "flow_inv (flow_start ?ff t ?s')"
      using L unfolding flow_inv_def T by (simp add: flow_start_def)
    with a ff show ?thesis by (simp add: flow_zero_def)
  qed
qed

lemma flow_alloc_cancel_ok:
  assumes inv: "flow_inv s" and idx: "idx < flow_first_free s"
  shows "\<exists>s'. flow_alloc_cancel idx s = Inr s' \<and> flow_inv s'"
proof -
  let ?tab = "flowtab s" and ?ff = "flow_first_free s"
  from inv have L: "length ?tab < 2 ^ 32" and ck: "clusters_ok ?tab" and ch: "chain_ok ?tab ?ff"
    by (simp_all add: flow_inv_def)
  have il: "idx < length ?tab" using idx chain_ok_first(1) [OF ch] by simp
  have occ: "ftype (?tab ! idx) \<noteq> FLOW_TYPE_NONE" using below_ff_occupied [OF ck ch idx] .
  let ?T = "?tab[idx := \<lparr>ftype = FLOW_TYPE_NONE, free_n = 1, free_next = ?ff\<rparr>]"
  have R: "(?tab ! idx)\<lparr>ftype := FLOW_TYPE_NONE, free_n := Suc 0, free_next := ?ff\<rparr> =
      \<lparr>ftype = FLOW_TYPE_NONE, free_n = Suc 0, free_next = ?ff\<rparr>"
    by (cases "?tab ! idx") simp
  have a: "flow_alloc_cancel idx s = Inr \<lparr>flowtab = ?T, flow_first_free = idx\<rparr>"
    using idx il by (simp add: flow_alloc_cancel_def Let_def R)
  have "clusters_ok ?T" using make_head_clusters [OF ck il occ refl] .
  moreover have "chain_ok ?T idx" using cancel_chain [OF ck ch idx refl] .
  ultimately have "flow_inv \<lparr>flowtab = ?T, flow_first_free = idx\<rparr>"
    using L by (simp add: flow_inv_def)
  with a show ?thesis by simp
qed

lemma flow_alloc_cancel_start:
  assumes "ftype (flowtab s ! idx) = FLOW_TYPE_NONE" "idx < length (flowtab s)"
  shows "flow_alloc_cancel idx (flow_start idx t s) = flow_alloc_cancel idx s"
proof -
  have R: "(flowtab s ! idx)\<lparr>ftype := FLOW_TYPE_NONE\<rparr> = flowtab s ! idx"
    using assms(1) by (cases "flowtab s ! idx") simp
  have "flowtab (flow_end idx (flow_start idx t s)) = flowtab s"
    using assms(2) R by (simp add: flow_start_def flow_end_def)
  moreover have "flowtab (flow_end idx s) = flowtab s"
    using assms(1) by (simp add: flow_end_def)
  moreover have "flow_first_free (flow_start idx t s) = flow_first_free s"
    by (simp add: flow_start_def)
  ultimately show ?thesis by (simp add: flow_alloc_cancel_def Let_def)
qed

lemma flow_write_inv:
  assumes inv: "flow_inv s"
  shows "flow_inv (flow_write idx a b s)"
proof (cases "idx < length (flowtab s) \<and> ftype (flowtab s ! idx) \<noteq> FLOW_TYPE_NONE")
  case False
  then show ?thesis using inv by (auto simp: flow_write_def FLOW_MAX_def)
next
  case True
  let ?tab = "flowtab s" and ?ff = "flow_first_free s"
  from inv have L: "length ?tab < 2 ^ 32" and ck: "clusters_ok ?tab" and ch: "chain_ok ?tab ?ff"
    by (simp_all add: flow_inv_def)
  from True have il: "idx < length ?tab" and occ: "ftype (?tab ! idx) \<noteq> FLOW_TYPE_NONE"
    by simp_all
  have "clusters_ok (?tab[idx := (?tab ! idx)\<lparr>free_n := a, free_next := b\<rparr>])"
    using write_clusters [OF ck il occ refl] .
  moreover have "chain_ok (?tab[idx := (?tab ! idx)\<lparr>free_n := a, free_next := b\<rparr>]) ?ff"
    using write_chain [OF ck ch il occ refl] .
  ultimately show ?thesis using True L by (simp add: flow_write_def FLOW_MAX_def flow_inv_def)
qed

lemma flow_init_inv:
  assumes n: "0 < n" "n < 2 ^ 32"
  shows "flow_inv (flow_init (flow_static n))"
proof -
  let ?T = "(replicate n flow_zero)[0 := flow_zero\<lparr>free_n := n, free_next := n\<rparr>]"
  have s: "flow_init (flow_static n) = \<lparr>flowtab = ?T, flow_first_free = 0\<rparr>"
    using n by (simp add: flow_init_def flow_static_def FLOW_MAX_def)
  have len: "length ?T = n" by simp
  have Z: "ftype (?T ! 0) = FLOW_TYPE_NONE" "free_n (?T ! 0) = n" "free_next (?T ! 0) = n"
    using n by (simp_all add: flow_zero_def)
  have N: "\<And>j. 0 < j \<Longrightarrow> j < n \<Longrightarrow> ftype (?T ! j) = FLOW_TYPE_NONE \<and> free_n (?T ! j) = 0"
    by (simp add: flow_zero_def)
  have H: "\<And>j. is_head ?T j \<longleftrightarrow> j = 0"
  proof -
    fix j show "is_head ?T j \<longleftrightarrow> j = 0"
      using Z N [of j] n len by (cases "j = 0") (auto simp: is_head_def)
  qed
  have "clusters_ok ?T"
  proof (rule clusters_okI)
    fix h assume "is_head ?T h"
    then have h: "h = 0" by (simp only: H)
    show "h + free_n (?T ! h) \<le> length ?T" unfolding h using Z len by simp
    fix j assume "h < j" "j < h + free_n (?T ! h)"
    then show "ftype (?T ! j) = FLOW_TYPE_NONE \<and> free_n (?T ! j) = 0"
      unfolding h using Z N [of j] by simp
  next
    fix j assume j: "j < length ?T" "ftype (?T ! j) = FLOW_TYPE_NONE" "free_n (?T ! j) = 0"
    then have "0 < j" using Z n by (cases "j = 0") simp_all
    moreover have "is_head ?T 0" by (simp only: H)
    ultimately show "\<exists>h<j. is_head ?T h \<and> j < h + free_n (?T ! h)"
      using j(1) Z len by (intro exI [of _ 0]) simp
  qed
  moreover have "chain_ok ?T 0"
  proof (rule chain_okI)
    show "is_head ?T 0" by (simp only: H)
  next
    fix h assume "is_head ?T h"
    then have h: "h = 0" by (simp only: H)
    show "h < free_next (?T ! h)" unfolding h using Z n by simp
    show "free_next (?T ! h) \<le> length ?T" unfolding h using Z len by simp
    show "is_head ?T (free_next (?T ! h))" if "free_next (?T ! h) < length ?T"
      using that unfolding h using Z len by simp
    show "\<not> is_head ?T j" if "h < j" "j < free_next (?T ! h)" for j
      using that unfolding h by (simp only: H)
  qed simp_all
  ultimately show ?thesis unfolding s flow_inv_def using n len by simp
qed

lemma flow_op_step_inv:
  assumes inv: "flow_inv s" and ok: "op_types_ok x"
  shows "\<exists>s'. flow_op_step x s = Some (Inr s') \<and> flow_inv s'"
proof (cases x)
  case (Op_new t)
  show ?thesis
  proof (cases "flow_first_free s < length (flowtab s)")
    case True
    from flow_alloc_start [OF inv True, of t] ok Op_new show ?thesis by auto
  next
    case False
    then show ?thesis using flow_alloc_full [of s] inv Op_new by simp
  qed
next
  case Op_cancel
  show ?thesis
  proof (cases "flow_first_free s < length (flowtab s)")
    case True
    from flow_alloc_start [OF inv True, of FLOW_TCP] obtain s'
      where s': "flow_alloc s = Inr (Some (flow_first_free s), s')"
        "flow_inv (flow_start (flow_first_free s) FLOW_TCP s')"
        "flow_first_free s < flow_first_free s'"
        "ftype (flowtab s' ! flow_first_free s) = FLOW_TYPE_NONE"
        "flow_first_free s < length (flowtab s')" by auto
    have "flow_first_free s < flow_first_free (flow_start (flow_first_free s) FLOW_TCP s')"
      using s'(3) by (simp add: flow_start_def)
    from flow_alloc_cancel_ok [OF s'(2) this] flow_alloc_cancel_start [OF s'(4,5)]
    show ?thesis using s'(1) Op_cancel by simp
  next
    case False
    then show ?thesis using flow_alloc_full [of s] inv Op_cancel by simp
  qed
next
  case (Op_start_cancel t)
  show ?thesis
  proof (cases "flow_first_free s < length (flowtab s)")
    case True
    from flow_alloc_start [OF inv True, of t] ok Op_start_cancel obtain s'
      where s': "flow_alloc s = Inr (Some (flow_first_free s), s')"
        "flow_inv (flow_start (flow_first_free s) t s')"
        "flow_first_free s < flow_first_free s'" by auto
    have "flow_first_free s < flow_first_free (flow_start (flow_first_free s) t s')"
      using s'(3) by (simp add: flow_start_def)
    from flow_alloc_cancel_ok [OF s'(2) this]
    show ?thesis using s'(1) Op_start_cancel by simp
  next
    case False
    then show ?thesis using flow_alloc_full [of s] inv Op_start_cancel by simp
  qed
next
  case (Op_write idx a b)
  then show ?thesis using flow_write_inv [OF inv] by simp
next
  case (Op_defer e)
  then show ?thesis using flow_defer_handler_ok [OF inv, of e] by auto
qed

lemma flow_run_inv:
  assumes "flow_inv s" "\<forall>x\<in>set ops. op_types_ok x"
  shows "\<exists>s'. flow_run ops s = Some (Inr s') \<and> flow_inv s'"
  using assms
proof (induction ops arbitrary: s)
  case Nil
  then show ?case by simp
next
  case (Cons x xs)
  from flow_op_step_inv [OF Cons.prems(1), of x] Cons.prems(2) obtain s1
    where s1: "flow_op_step x s = Some (Inr s1)" "flow_inv s1" by auto
  from Cons.IH [OF s1(2)] Cons.prems(2) s1(1) show ?case by simp
qed

text \<open>
  C2, as stated, fails: \<^verbatim>\<open>flow_alloc()\<close> alone leaves the entry it returns in the ALLOC
  state of the life cycle, cleared by \<^verbatim>\<open>memset()\<close>: its type is \<^verbatim>\<open>FLOW_TYPE_NONE\<close> and
  it is in no free cluster. On a table of four entries, after \<^verbatim>\<open>flow_init()\<close> and one
  \<^verbatim>\<open>flow_alloc()\<close> the free list is the single cluster at index 1 of length 3 and no
  entry has a type other than \<^verbatim>\<open>FLOW_TYPE_NONE\<close>, so the sum is 3, not \<^verbatim>\<open>FLOW_MAX\<close> = 4;
  and \<^verbatim>\<open>flow_defer_handler()\<close> run in this state fails its \<^verbatim>\<open>ASSERT(skip)\<close>.
\<close>

theorem C2_flow_free_list_counterexample:
  "flow_alloc (flow_init (flow_static 4)) = Inr (Some 0, flow_tentative)
   \<and> free_chain (flowtab flow_tentative) (flow_first_free flow_tentative) = Some [1]
   \<and> free_total flow_tentative [1] = 3
   \<and> flow_active flow_tentative = 0
   \<and> FLOW_MAX flow_tentative = 4
   \<and> \<not> free_list_ok flow_tentative
   \<and> flow_defer_handler flow_env_example flow_tentative = Some (Inl Assert_fail)"
  by code_simp

text \<open>
  C2, amended: for every sequence of operations of the flow entry life cycle starting
  from \<^verbatim>\<open>flow_init()\<close> on a table of \<open>0 < FLOW_MAX < 2 ^ 32\<close> entries, where an operation
  is \<^verbatim>\<open>flow_alloc()\<close> followed by \<^verbatim>\<open>FLOW_START()\<close> with a flow type, \<^verbatim>\<open>flow_alloc()\<close>
  followed by \<^verbatim>\<open>flow_alloc_cancel()\<close> of the entry just allocated (directly or after
  \<^verbatim>\<open>FLOW_START()\<close>), a write of the flow type specific fields of an entry that holds a
  flow, or \<^verbatim>\<open>flow_defer_handler()\<close> with any answers of the per-flow handlers: no
  \<^verbatim>\<open>ASSERT()\<close> fails, \<^verbatim>\<open>flow_defer_handler()\<close> returns, and in the state reached the free
  list headed at \<^verbatim>\<open>flow_first_free\<close> is a linked list of free clusters in strictly
  increasing index order terminating at \<^verbatim>\<open>FLOW_MAX\<close>, every cluster head has \<open>n \<ge> 1\<close> and
  \<open>idx + n \<le> FLOW_MAX\<close>, and the sum of the free cluster lengths plus the number of
  entries whose type is not \<^verbatim>\<open>FLOW_TYPE_NONE\<close> equals \<^verbatim>\<open>FLOW_MAX\<close>.
\<close>

theorem C2_flow_free_list:
  assumes "0 < n" "n < 2 ^ 32" "\<forall>x\<in>set ops. op_types_ok x"
  shows "case flow_run ops (flow_init (flow_static n)) of
           Some (Inr s) \<Rightarrow> free_list_ok s
         | _ \<Rightarrow> False"
proof -
  from flow_run_inv [OF flow_init_inv [OF assms(1,2)] assms(3)] obtain s'
    where "flow_run ops (flow_init (flow_static n)) = Some (Inr s')" "flow_inv s'" by blast
  then show ?thesis using flow_inv_free_list_ok by simp
qed

theorem C2_flow_free_list_witness:
  "flow_run flow_ops_example (flow_init (flow_static 4)) = Some (Inr flow_example_final)
   \<and> free_list_ok flow_example_final"
proof -
  have r: "flow_run flow_ops_example (flow_init (flow_static 4)) = Some (Inr flow_example_final)"
    by code_simp
  have ok: "\<forall>x\<in>set flow_ops_example. op_types_ok x" by code_simp
  from C2_flow_free_list [of 4 flow_ops_example, OF _ _ ok] r show ?thesis by simp
qed

end
